theory Spec2Isabelle
  imports Main "HOL-Library.Word"
begin

section \<open>Basic types\<close>

text \<open>
  \<^verbatim>\<open>common.Address\<close> / \<^verbatim>\<open>thor.Address\<close> are 20-byte arrays, \<^verbatim>\<open>common.Hash\<close> /
  \<^verbatim>\<open>thor.Hash\<close> are 32-byte arrays; the conversions between the two packages' types
  are identities.  A \<^verbatim>\<open>[]byte\<close> is a list of bytes (the nil slice is the empty list).
  A \<^verbatim>\<open>*big.Int\<close> handled by value is an \<open>int\<close>; Go's \<^verbatim>\<open>int\<close> (snapshot revisions, depths)
  is modelled as \<open>int\<close>, the depths that occur being far from 64-bit overflow.
\<close>

type_synonym Address = "160 word"
type_synonym Hash = "256 word"
type_synonym bytes = "8 word list"

text \<open>
  The panics of \<^verbatim>\<open>statedb.go\<close>: the explicit one of \<^verbatim>\<open>RevertToSnapshot\<close> (with the two
  numbers of its message), a failed type assertion \<^verbatim>\<open>v.(T)\<close>, and the journal's own
  panic on a bad \<^verbatim>\<open>PopTo\<close> depth.
\<close>

datatype error =
    InvalidSnapshotRevision int int
  | TypeAssertionFailed
  | PopToOutOfRange

section \<open>The underlying State\<close>

text \<open>
  Modelled from the spec: the \<^verbatim>\<open>State\<close> interface of package statedb is declared outside
  \<^verbatim>\<open>statedb.go\<close>.  The spec (sections 1, 4.2 and 6) describes it as a checkpointable
  account/storage store with balance, code, storage, existence and deletion primitives
  and with \<^verbatim>\<open>new_checkpoint()\<close> / \<^verbatim>\<open>revert()\<close>.  The model is the checkpoint contract itself:
  \<^verbatim>\<open>NewCheckpoint\<close> saves the current accounts, \<^verbatim>\<open>Revert\<close> puts the latest saved accounts
  back (and does nothing when no checkpoint is outstanding).  An absent account reads as
  zero balance, empty code and zero storage.
\<close>

record Account =
  balance :: int
  code :: bytes
  storage :: "Hash \<Rightarrow> Hash"

definition emptyAccount :: Account where
  "emptyAccount = \<lparr> balance = 0, code = [], storage = (\<lambda>_. 0) \<rparr>"

record State =
  accounts :: "Address \<Rightarrow> Account option"
  checkpoints :: "(Address \<Rightarrow> Account option) list"

definition account_of :: "State \<Rightarrow> Address \<Rightarrow> Account" where
  "account_of st a = (case accounts st a of None \<Rightarrow> emptyAccount | Some acc \<Rightarrow> acc)"

definition State_GetBalance :: "State \<Rightarrow> Address \<Rightarrow> int" where
  "State_GetBalance st a = balance (account_of st a)"

definition State_SetBalance :: "State \<Rightarrow> Address \<Rightarrow> int \<Rightarrow> State" where
  "State_SetBalance st a v =
     st\<lparr>accounts := (accounts st)(a \<mapsto> (account_of st a)\<lparr>balance := v\<rparr>)\<rparr>"

definition State_GetCode :: "State \<Rightarrow> Address \<Rightarrow> bytes" where
  "State_GetCode st a = code (account_of st a)"

definition State_SetCode :: "State \<Rightarrow> Address \<Rightarrow> bytes \<Rightarrow> State" where
  "State_SetCode st a c =
     st\<lparr>accounts := (accounts st)(a \<mapsto> (account_of st a)\<lparr>code := c\<rparr>)\<rparr>"

definition State_GetStorage :: "State \<Rightarrow> Address \<Rightarrow> Hash \<Rightarrow> Hash" where
  "State_GetStorage st a k = storage (account_of st a) k"

definition State_SetStorage :: "State \<Rightarrow> Address \<Rightarrow> Hash \<Rightarrow> Hash \<Rightarrow> State" where
  "State_SetStorage st a k v =
     st\<lparr>accounts := (accounts st)(a \<mapsto>
          (account_of st a)\<lparr>storage := (storage (account_of st a))(k := v)\<rparr>)\<rparr>"

definition State_Exists :: "State \<Rightarrow> Address \<Rightarrow> bool" where
  "State_Exists st a = (accounts st a \<noteq> None)"

definition State_Delete :: "State \<Rightarrow> Address \<Rightarrow> State" where
  "State_Delete st a = st\<lparr>accounts := (accounts st)(a := None)\<rparr>"

definition State_NewCheckpoint :: "State \<Rightarrow> State" where
  "State_NewCheckpoint st = st\<lparr>checkpoints := accounts st # checkpoints st\<rparr>"

definition State_Revert :: "State \<Rightarrow> State" where
  "State_Revert st =
     (case checkpoints st of
        [] \<Rightarrow> st
      | saved # older \<Rightarrow> st\<lparr>accounts := saved, checkpoints := older\<rparr>)"

section \<open>Journal keys and values\<close>

text \<open>
  The four key types of \<^verbatim>\<open>statedb.go\<close> (lines 23-26).  \<^verbatim>\<open>refundKey\<close> and \<^verbatim>\<open>logKey\<close> are
  empty structs: all their values are equal, so each is a single key.  The facade builds
  journal keys of these four types only, which is why the getter's final \<^verbatim>\<open>panic\<close> for an
  unknown key type has no key to fire on.
\<close>

datatype Key =
    suicideFlagKey Address
  | refundKey
  | preimageKey Hash
  | logKey

record Log =
  Address :: Address
  Topics :: "Hash list"
  Data :: bytes

text \<open>
  The dynamically typed values (\<^verbatim>\<open>interface{}\<close>) the journal holds: a \<^verbatim>\<open>bool\<close>, a
  \<^verbatim>\<open>*big.Int\<close> (a reference into the heap of big integers below), a \<^verbatim>\<open>[]byte\<close>, a
  non-nil \<^verbatim>\<open>*Log\<close>, and the nil \<^verbatim>\<open>*types.Log\<close> that the getter returns for \<^verbatim>\<open>logKey\<close>.
\<close>

datatype Value =
    VBool bool
  | VBigInt nat
  | VBytes bytes
  | VLog Log
  | VNilTypesLog

text \<open>
  The heap of \<^verbatim>\<open>big.Int\<close> objects reachable through the journal: a \<^verbatim>\<open>*big.Int\<close> is an
  index into it, an allocation appends a cell, and nothing in \<^verbatim>\<open>statedb.go\<close> writes to a
  cell after its allocation unless a definition below says so.
\<close>

type_synonym Heap = "int list"

definition alloc :: "Heap \<Rightarrow> int \<Rightarrow> nat \<times> Heap" where
  "alloc h v = (length h, h @ [v])"

text \<open>The getter closure of \<^verbatim>\<open>New\<close> (lines 30-42); \<^verbatim>\<open>&big.Int{}\<close> allocates a zero.\<close>

definition getter :: "Key \<Rightarrow> Heap \<Rightarrow> Value \<times> Heap" where
  "getter k h =
     (case k of
        suicideFlagKey _ \<Rightarrow> (VBool False, h)
      | refundKey \<Rightarrow> (let (p, h') = alloc h 0 in (VBigInt p, h'))
      | preimageKey _ \<Rightarrow> (VBytes [], h)
      | logKey \<Rightarrow> (VNilTypesLog, h))"

section \<open>The stacked journal\<close>

text \<open>
  Modelled from the spec: package \<^verbatim>\<open>stackedmap\<close>, which \<^verbatim>\<open>statedb.go\<close> imports.  Spec
  sections 3 and 4.1: a push/pop journal of key-to-value overlays over a default getter.
  \<^item> \<^verbatim>\<open>get(key)\<close> returns the topmost-frame binding for the key, else the getter's default;
  \<^item> \<^verbatim>\<open>put(key, value)\<close> writes into the topmost frame, shadowing any earlier or deeper
    binding; with no frame pushed it writes into the base frame;
  \<^item> \<^verbatim>\<open>push()\<close> opens a new empty frame and returns the depth to pop back to in order to
    discard it, that is the depth before the push.  This is the token that section 4.2
    (\<^verbatim>\<open>n = depth - rev\<close>, then \<^verbatim>\<open>pop_to(rev)\<close>), invariant 3 of section 8 and the scenarios
    S2 and S6 require; the words "the new depth (1-based)" of section 4.1 cannot hold
    together with them and are not followed;
  \<^item> \<^verbatim>\<open>pop_to(d)\<close> discards all frames above depth \<open>d\<close>, as \<open>depth - d\<close> single pops, and
    panics if \<open>d < 0\<close> or \<open>d > depth\<close>;
  \<^item> \<^verbatim>\<open>depth()\<close> is the number of pushed frames;
  \<^item> \<^verbatim>\<open>journal(visit)\<close> calls \<^verbatim>\<open>visit\<close> on every live pair across all frames, in insertion
    order, until \<^verbatim>\<open>visit\<close> returns false.
  Each write is pushed onto the top frame (section 3), and a frame keeps every write
  made into it, in order: a write is live as long as its frame has not been popped.
  This is what lets the traversal enumerate the logs, each an entry of its own
  (sections 3 and 9) although the source writes them all under the one key
  \<^verbatim>\<open>logKey{}\<close>.  Within a frame the latest write to a key is its binding.  \<open>stack\<close> has
  the topmost frame first.
\<close>

type_synonym Frame = "(Key \<times> Value) list"

record StackedMap =
  base :: Frame
  stack :: "Frame list"

definition stackedmap_New :: StackedMap where
  "stackedmap_New = \<lparr> base = [], stack = [] \<rparr>"

fun find_binding :: "Frame list \<Rightarrow> Key \<Rightarrow> Value option" where
  "find_binding [] k = None"
| "find_binding (f # fs) k =
     (case map_of (rev f) k of Some v \<Rightarrow> Some v | None \<Rightarrow> find_binding fs k)"

definition sm_Get :: "StackedMap \<Rightarrow> Key \<Rightarrow> Heap \<Rightarrow> Value \<times> Heap" where
  "sm_Get sm k h =
     (case find_binding (stack sm @ [base sm]) k of
        Some v \<Rightarrow> (v, h)
      | None \<Rightarrow> getter k h)"

definition sm_Put :: "StackedMap \<Rightarrow> Key \<Rightarrow> Value \<Rightarrow> StackedMap" where
  "sm_Put sm k v =
     (case stack sm of
        [] \<Rightarrow> sm\<lparr>base := base sm @ [(k, v)]\<rparr>
      | f # below \<Rightarrow> sm\<lparr>stack := (f @ [(k, v)]) # below\<rparr>)"

definition sm_Depth :: "StackedMap \<Rightarrow> int" where
  "sm_Depth sm = int (length (stack sm))"

definition sm_Push :: "StackedMap \<Rightarrow> int \<times> StackedMap" where
  "sm_Push sm = (sm_Depth sm, sm\<lparr>stack := [] # stack sm\<rparr>)"

definition sm_PopTo :: "StackedMap \<Rightarrow> int \<Rightarrow> error + StackedMap" where
  "sm_PopTo sm d =
     (if d < 0 \<or> d > sm_Depth sm then Inl PopToOutOfRange
      else Inr (sm\<lparr>stack := drop (nat (sm_Depth sm - d)) (stack sm)\<rparr>))"

text \<open>The live pairs: the writes of the base frame, then of each frame up to the top.\<close>

definition sm_entries :: "StackedMap \<Rightarrow> (Key \<times> Value) list" where
  "sm_entries sm = concat (base sm # rev (stack sm))"

text \<open>
  The traversal: the visitor threads the caller's accumulator \<open>'c\<close> (whatever the Go
  closure captures) and may panic, which ends the traversal as the panic unwinds it.
\<close>

fun traverse ::
  "(Key \<times> Value) list \<Rightarrow> ('c \<Rightarrow> Key \<Rightarrow> Value \<Rightarrow> error + bool \<times> 'c) \<Rightarrow> 'c \<Rightarrow> error + 'c" where
  "traverse [] visit c = Inr c"
| "traverse ((k, v) # es) visit c =
     (case visit c k v of
        Inl e \<Rightarrow> Inl e
      | Inr (continue, c') \<Rightarrow> if continue then traverse es visit c' else Inr c')"

definition sm_Journal ::
  "StackedMap \<Rightarrow> ('c \<Rightarrow> Key \<Rightarrow> Value \<Rightarrow> error + bool \<times> 'c) \<Rightarrow> 'c \<Rightarrow> error + 'c" where
  "sm_Journal sm visit c = traverse (sm_entries sm) visit c"

section \<open>The facade \<^verbatim>\<open>StateDB\<close> (vm/statedb/statedb.go)\<close>

text \<open>
  Every call the facade makes on its two collaborators is recorded, in order, so that
  statements about which calls a method makes (and how often, and in which order) can be
  written down.
\<close>

datatype Call =
    Call_GetBalance Address
  | Call_SetBalance Address int
  | Call_GetCode Address
  | Call_SetCode Address bytes
  | Call_GetStorage Address Hash
  | Call_SetStorage Address Hash Hash
  | Call_Exists Address
  | Call_Delete Address
  | Call_NewCheckpoint
  | Call_Revert
  | Call_Get Key
  | Call_Put Key Value
  | Call_Push
  | Call_PopTo int
  | Call_Depth
  | Call_Journal

text \<open>
  The struct has the fields \<open>state\<close> and \<open>repo\<close>.  The model carries two more components
  of the world the methods act on: \<open>heap\<close>, the \<^verbatim>\<open>big.Int\<close> objects allocated so far, and
  \<open>calls\<close>, the record of the calls made on \<open>state\<close> and \<open>repo\<close>.
\<close>

record StateDB =
  state :: State
  repo :: StackedMap
  heap :: Heap
  calls :: "Call list"

definition New :: "State \<Rightarrow> StateDB" where
  "New st = \<lparr> state = st, repo = stackedmap_New, heap = [], calls = [] \<rparr>"

subsection \<open>The call sites \<^verbatim>\<open>s.state.M(...)\<close> and \<^verbatim>\<open>s.repo.M(...)\<close>\<close>

definition called :: "StateDB \<Rightarrow> Call \<Rightarrow> StateDB" where
  "called s c = s\<lparr>calls := calls s @ [c]\<rparr>"

definition state_GetBalance :: "StateDB \<Rightarrow> Address \<Rightarrow> int \<times> StateDB" where
  "state_GetBalance s a = (State_GetBalance (state s) a, called s (Call_GetBalance a))"

definition state_SetBalance :: "StateDB \<Rightarrow> Address \<Rightarrow> int \<Rightarrow> StateDB" where
  "state_SetBalance s a v =
     called (s\<lparr>state := State_SetBalance (state s) a v\<rparr>) (Call_SetBalance a v)"

definition state_GetCode :: "StateDB \<Rightarrow> Address \<Rightarrow> bytes \<times> StateDB" where
  "state_GetCode s a = (State_GetCode (state s) a, called s (Call_GetCode a))"

definition state_SetCode :: "StateDB \<Rightarrow> Address \<Rightarrow> bytes \<Rightarrow> StateDB" where
  "state_SetCode s a c =
     called (s\<lparr>state := State_SetCode (state s) a c\<rparr>) (Call_SetCode a c)"

definition state_GetStorage :: "StateDB \<Rightarrow> Address \<Rightarrow> Hash \<Rightarrow> Hash \<times> StateDB" where
  "state_GetStorage s a k = (State_GetStorage (state s) a k, called s (Call_GetStorage a k))"

definition state_SetStorage :: "StateDB \<Rightarrow> Address \<Rightarrow> Hash \<Rightarrow> Hash \<Rightarrow> StateDB" where
  "state_SetStorage s a k v =
     called (s\<lparr>state := State_SetStorage (state s) a k v\<rparr>) (Call_SetStorage a k v)"

definition state_Exists :: "StateDB \<Rightarrow> Address \<Rightarrow> bool \<times> StateDB" where
  "state_Exists s a = (State_Exists (state s) a, called s (Call_Exists a))"

definition state_Delete :: "StateDB \<Rightarrow> Address \<Rightarrow> StateDB" where
  "state_Delete s a = called (s\<lparr>state := State_Delete (state s) a\<rparr>) (Call_Delete a)"

definition state_NewCheckpoint :: "StateDB \<Rightarrow> StateDB" where
  "state_NewCheckpoint s =
     called (s\<lparr>state := State_NewCheckpoint (state s)\<rparr>) Call_NewCheckpoint"

definition state_Revert :: "StateDB \<Rightarrow> StateDB" where
  "state_Revert s = called (s\<lparr>state := State_Revert (state s)\<rparr>) Call_Revert"

definition repo_Get :: "StateDB \<Rightarrow> Key \<Rightarrow> Value \<times> StateDB" where
  "repo_Get s k =
     (let (v, h') = sm_Get (repo s) k (heap s)
      in (v, called (s\<lparr>heap := h'\<rparr>) (Call_Get k)))"

definition repo_Put :: "StateDB \<Rightarrow> Key \<Rightarrow> Value \<Rightarrow> StateDB" where
  "repo_Put s k v = called (s\<lparr>repo := sm_Put (repo s) k v\<rparr>) (Call_Put k v)"

definition repo_Push :: "StateDB \<Rightarrow> int \<times> StateDB" where
  "repo_Push s =
     (let (d, sm') = sm_Push (repo s) in (d, called (s\<lparr>repo := sm'\<rparr>) Call_Push))"

definition repo_Depth :: "StateDB \<Rightarrow> int \<times> StateDB" where
  "repo_Depth s = (sm_Depth (repo s), called s Call_Depth)"

definition repo_PopTo :: "StateDB \<Rightarrow> int \<Rightarrow> error + StateDB" where
  "repo_PopTo s d =
     (case sm_PopTo (repo s) d of
        Inl e \<Rightarrow> Inl e
      | Inr sm' \<Rightarrow> Inr (called (s\<lparr>repo := sm'\<rparr>) (Call_PopTo d)))"

definition repo_Journal ::
  "StateDB \<Rightarrow> ('c \<Rightarrow> Key \<Rightarrow> Value \<Rightarrow> error + bool \<times> 'c) \<Rightarrow> 'c \<Rightarrow> error + 'c \<times> StateDB" where
  "repo_Journal s visit c =
     (case sm_Journal (repo s) visit c of
        Inl e \<Rightarrow> Inl e
      | Inr c' \<Rightarrow> Inr (c', called s Call_Journal))"

subsection \<open>The methods\<close>

text \<open>\<^verbatim>\<open>GetRefund\<close> (lines 52-55): the pointer stored under \<^verbatim>\<open>refundKey{}\<close>.\<close>

definition GetRefund :: "StateDB \<Rightarrow> error + nat \<times> StateDB" where
  "GetRefund s =
     (let (v, s1) = repo_Get s refundKey
      in case v of VBigInt p \<Rightarrow> Inr (p, s1) | _ \<Rightarrow> Inl TypeAssertionFailed)"

text \<open>
  \<^verbatim>\<open>GetPreimages\<close> and \<^verbatim>\<open>GetLogs\<close> (lines 58-75).  The callback \<open>cb\<close> returns whether to go
  on and threads an accumulator \<open>'c\<close> standing for whatever the Go closure captures; the
  two visitor closures are named so that they can be spoken about.
\<close>

definition preimage_visitor ::
  "('c \<Rightarrow> Hash \<Rightarrow> bytes \<Rightarrow> bool \<times> 'c) \<Rightarrow> 'c \<Rightarrow> Key \<Rightarrow> Value \<Rightarrow> error + bool \<times> 'c" where
  "preimage_visitor cb c k v =
     (case k of
        preimageKey key \<Rightarrow>
          (case v of VBytes b \<Rightarrow> Inr (cb c key b) | _ \<Rightarrow> Inl TypeAssertionFailed)
      | _ \<Rightarrow> Inr (True, c))"

definition GetPreimages ::
  "StateDB \<Rightarrow> ('c \<Rightarrow> Hash \<Rightarrow> bytes \<Rightarrow> bool \<times> 'c) \<Rightarrow> 'c \<Rightarrow> error + 'c \<times> StateDB" where
  "GetPreimages s cb c = repo_Journal s (preimage_visitor cb) c"

definition log_visitor ::
  "('c \<Rightarrow> Log \<Rightarrow> bool \<times> 'c) \<Rightarrow> 'c \<Rightarrow> Key \<Rightarrow> Value \<Rightarrow> error + bool \<times> 'c" where
  "log_visitor cb c k v =
     (case k of
        logKey \<Rightarrow> (case v of VLog l \<Rightarrow> Inr (cb c l) | _ \<Rightarrow> Inl TypeAssertionFailed)
      | _ \<Rightarrow> Inr (True, c))"

definition GetLogs ::
  "StateDB \<Rightarrow> ('c \<Rightarrow> Log \<Rightarrow> bool \<times> 'c) \<Rightarrow> 'c \<Rightarrow> error + 'c \<times> StateDB" where
  "GetLogs s cb c = repo_Journal s (log_visitor cb) c"

definition CreateAccount :: "StateDB \<Rightarrow> Address \<Rightarrow> StateDB" where
  "CreateAccount s addr = s"

definition GetBalance :: "StateDB \<Rightarrow> Address \<Rightarrow> int \<times> StateDB" where
  "GetBalance s addr = state_GetBalance s addr"

text \<open>
  \<^verbatim>\<open>SubBalance\<close> and \<^verbatim>\<open>AddBalance\<close> (lines 93-108); \<open>amount\<close> is the value of the
  \<^verbatim>\<open>*big.Int\<close> argument, which is only read.
\<close>

definition SubBalance :: "StateDB \<Rightarrow> Address \<Rightarrow> int \<Rightarrow> StateDB" where
  "SubBalance s addr amount =
     (if sgn amount = 0 then s
      else (let (balance, s1) = state_GetBalance s addr
            in state_SetBalance s1 addr (balance - amount)))"

definition AddBalance :: "StateDB \<Rightarrow> Address \<Rightarrow> int \<Rightarrow> StateDB" where
  "AddBalance s addr amount =
     (if sgn amount = 0 then s
      else (let (balance, s1) = state_GetBalance s addr
            in state_SetBalance s1 addr (balance + amount)))"

definition GetNonce :: "StateDB \<Rightarrow> Address \<Rightarrow> 64 word" where
  "GetNonce s addr = 0"

definition SetNonce :: "StateDB \<Rightarrow> Address \<Rightarrow> 64 word \<Rightarrow> StateDB" where
  "SetNonce s addr nonce = s"

definition GetCode :: "StateDB \<Rightarrow> Address \<Rightarrow> bytes \<times> StateDB" where
  "GetCode s addr = state_GetCode s addr"

definition GetCodeSize :: "StateDB \<Rightarrow> Address \<Rightarrow> int \<times> StateDB" where
  "GetCodeSize s addr = (let (c, s1) = state_GetCode s addr in (int (length c), s1))"

definition SetCode :: "StateDB \<Rightarrow> Address \<Rightarrow> bytes \<Rightarrow> StateDB" where
  "SetCode s addr c = state_SetCode s addr c"

text \<open>\<^verbatim>\<open>HasSuicided\<close> and \<^verbatim>\<open>Suicide\<close> (lines 137-154).\<close>

definition HasSuicided :: "StateDB \<Rightarrow> Address \<Rightarrow> error + bool \<times> StateDB" where
  "HasSuicided s addr =
     (let (v, s1) = repo_Get s (suicideFlagKey addr)
      in case v of VBool b \<Rightarrow> Inr (b, s1) | _ \<Rightarrow> Inl TypeAssertionFailed)"

definition Suicide :: "StateDB \<Rightarrow> Address \<Rightarrow> bool \<times> StateDB" where
  "Suicide s addr =
     (let (ex, s1) = state_Exists s addr
      in if \<not> ex then (False, s1)
         else (let s2 = state_Delete s1 addr;
                   s3 = repo_Put s2 (suicideFlagKey addr) (VBool True)
               in (True, s3)))"

definition GetState :: "StateDB \<Rightarrow> Address \<Rightarrow> Hash \<Rightarrow> Hash \<times> StateDB" where
  "GetState s addr key = state_GetStorage s addr key"

definition SetState :: "StateDB \<Rightarrow> Address \<Rightarrow> Hash \<Rightarrow> Hash \<Rightarrow> StateDB" where
  "SetState s addr key v = state_SetStorage s addr key v"

definition Exist :: "StateDB \<Rightarrow> Address \<Rightarrow> bool \<times> StateDB" where
  "Exist s addr = state_Exists s addr"

definition Empty :: "StateDB \<Rightarrow> Address \<Rightarrow> bool \<times> StateDB" where
  "Empty s addr = (let (ex, s1) = state_Exists s addr in (\<not> ex, s1))"

text \<open>
  \<^verbatim>\<open>AddRefund\<close> (lines 177-181): \<^verbatim>\<open>new(big.Int).Add(v.(*big.Int), gas)\<close> reads the cell
  \<open>v\<close> points to and the value \<open>gas\<close> of its argument, and writes their sum into a newly
  allocated cell only.
\<close>

definition AddRefund :: "StateDB \<Rightarrow> int \<Rightarrow> error + StateDB" where
  "AddRefund s gas =
     (let (v, s1) = repo_Get s refundKey
      in case v of
           VBigInt p \<Rightarrow>
             (let (total, h') = alloc (heap s1) (heap s1 ! p + gas)
              in Inr (repo_Put (s1\<lparr>heap := h'\<rparr>) refundKey (VBigInt total)))
         | _ \<Rightarrow> Inl TypeAssertionFailed)"

definition AddPreimage :: "StateDB \<Rightarrow> Hash \<Rightarrow> bytes \<Rightarrow> StateDB" where
  "AddPreimage s hash preimage = repo_Put s (preimageKey hash) (VBytes preimage)"

text \<open>
  \<^verbatim>\<open>vmlogToLog\<close> (lines 223-235) reads three fields of a \<^verbatim>\<open>types.Log\<close>; the conversion of
  each topic is the identity on 32 bytes.
\<close>

record TypesLog =
  vm_Address :: Address
  vm_Topics :: "Hash list"
  vm_Data :: bytes

definition vmlogToLog :: "TypesLog \<Rightarrow> Log" where
  "vmlogToLog vmlog =
     \<lparr> Address = vm_Address vmlog,
       Topics = (if length (vm_Topics vmlog) > 0
                 then foldl (\<lambda>topics t. topics @ [t]) [] (vm_Topics vmlog) else []),
       Data = vm_Data vmlog \<rparr>"

definition AddLog :: "StateDB \<Rightarrow> TypesLog \<Rightarrow> StateDB" where
  "AddLog s vmlog = repo_Put s logKey (VLog (vmlogToLog vmlog))"

text \<open>\<^verbatim>\<open>Snapshot\<close> (lines 194-198).\<close>

definition Snapshot :: "StateDB \<Rightarrow> int \<times> StateDB" where
  "Snapshot s =
     (let s1 = state_NewCheckpoint s;
          (revision, s2) = repo_Push s1
      in (revision, s2))"

text \<open>
  \<^verbatim>\<open>RevertToSnapshot\<close> (lines 201-210).  The guard \<^verbatim>\<open>rev < 0 || rev > s.repo.Depth()\<close>
  short-circuits (\<open>revision\<close> is the source's \<^verbatim>\<open>rev\<close>); the panic message reads the depth once more; the loop is the
  \<^verbatim>\<open>for i := 0; i < revertCount; i++\<close> of the source.
\<close>

function revert_loop :: "int \<Rightarrow> int \<Rightarrow> StateDB \<Rightarrow> StateDB" where
  "revert_loop i revertCount s =
     (if i < revertCount then revert_loop (i + 1) revertCount (state_Revert s) else s)"
  by pat_completeness auto
termination
  by (relation "measure (\<lambda>(i, revertCount, s). nat (revertCount - i))") auto

definition RevertToSnapshot :: "StateDB \<Rightarrow> int \<Rightarrow> error + StateDB" where
  "RevertToSnapshot s revision =
     (let (invalid, s1) =
            (if revision < 0 then (True, s)
             else (let (d, s') = repo_Depth s in (revision > d, s')))
      in if invalid
         then (let (d, s2) = repo_Depth s1 in Inl (InvalidSnapshotRevision revision d))
         else (let (d, s2) = repo_Depth s1;
                   revertCount = d - revision;
                   s3 = revert_loop 0 revertCount s2
               in repo_PopTo s3 revision))"

section \<open>The block event loops (cmd/thor/client.go)\<close>

subsection \<open>Blocks, errors and collaborators\<close>

text \<open>
  A block as the two loops read it: its header's number, id and signer (the result of
  \<^verbatim>\<open>Header().Signer()\<close>, whose error the loop discards) and its size.  Go \<^verbatim>\<open>error\<close> values
  are an \<open>Err\<close>, and a possibly nil \<^verbatim>\<open>error\<close> is an \<open>Err option\<close>.
\<close>

record Header =
  Number :: "32 word"
  ID :: Hash
  Signer :: Address

record Block =
  Header :: Header
  Size :: nat

datatype Err = errNotFound | errGasLimitReached | errOther nat

type_synonym Tx = nat
type_synonym PrivateKey = nat

text \<open>
  Modelled from the spec: package \<^verbatim>\<open>chain\<close>, which \<^verbatim>\<open>client.go\<close> imports.  Spec sections 3 and
  6: blocks keyed by id, at most one block per id, \<^verbatim>\<open>get_header(id)\<close> giving the header or
  the NotFound sentinel, \<^verbatim>\<open>add_block(block, on_trunk)\<close>, and the classifier
  \<^verbatim>\<open>is_not_found(err)\<close>.  Section 4.4: the store deduplicates by id.
\<close>

record Chain =
  blocks :: "(Block \<times> bool) list"

definition chain_GetBlockHeader :: "Chain \<Rightarrow> Hash \<Rightarrow> Header option \<times> Err option" where
  "chain_GetBlockHeader ch bid =
     (case find (\<lambda>(b, t). ID (Header b) = bid) (blocks ch) of
        None \<Rightarrow> (None, Some errNotFound)
      | Some (b, t) \<Rightarrow> (Some (Header b), None))"

definition chain_IsNotFound :: "Err option \<Rightarrow> bool" where
  "chain_IsNotFound err = (err = Some errNotFound)"

definition chain_AddBlock :: "Chain \<Rightarrow> Block \<Rightarrow> bool \<Rightarrow> Chain" where
  "chain_AddBlock ch blk trunk =
     (if find (\<lambda>(b, t). ID (Header b) = ID (Header blk)) (blocks ch) = None
      then ch\<lparr>blocks := blocks ch @ [(blk, trunk)]\<rparr> else ch)"

text \<open>
  Modelled from the spec: \<^verbatim>\<open>packer.IsGasLimitReached\<close> is the error classifier
  \<^verbatim>\<open>is_gas_limit_reached(err)\<close> of spec section 6.
\<close>

definition packer_IsGasLimitReached :: "Err option \<Rightarrow> bool" where
  "packer_IsGasLimitReached err = (err = Some errGasLimitReached)"

text \<open>
  The consenter (package \<^verbatim>\<open>consensus\<close>) is a parameter: \<^verbatim>\<open>Consent\<close> gives the trunk flag or
  an error (its receipts are discarded by the loop), \<^verbatim>\<open>IsTrunk\<close> likewise; both may read
  the chain.
\<close>

record Consensus =
  Consent :: "Chain \<Rightarrow> Block \<Rightarrow> 64 word \<Rightarrow> Err + bool"
  IsTrunk :: "Chain \<Rightarrow> Header \<Rightarrow> Err + bool"

text \<open>
  What a loop iteration does to the outside, in order: the calls on the chain store, the
  consenter, the communicator and the packer's closures, the log lines, and the channel
  operations.  The send on \<^verbatim>\<open>bestBlockUpdate\<close> sits in a \<^verbatim>\<open>select\<close> with a \<^verbatim>\<open>default\<close>: it is
  an attempt.
\<close>

datatype LogMsg =
    received_trunk Block Address
  | received_branch Block Address
  | received_bad Block Address Err
  | waiting_to_propose "32 word" "64 word"
  | proposed Block

datatype Event =
    Ev_GetBlockHeader Hash
  | Ev_Consent Block "64 word"
  | Ev_IsTrunk Header
  | Ev_AddBlock Block bool
  | Ev_BroadcastBlock Block
  | Ev_LogInfo LogMsg
  | Ev_LogWarn LogMsg
  | Ev_TrySend_bestBlockUpdate
  | Ev_Send_newBlockAck
  | Ev_Prepare Header "64 word"
  | Ev_NewTimer "64 word"
  | Ev_adopt Tx "Err option"
  | Ev_commit PrivateKey
  | Ev_Send_newBlockPacked Block
  | Ev_Recv_newBlockAck

record World =
  chain :: Chain
  trace :: "Event list"

definition emit :: "World \<Rightarrow> Event \<Rightarrow> World" where
  "emit w e = w\<lparr>trace := trace w @ [e]\<rparr>"

definition ch_GetBlockHeader :: "World \<Rightarrow> Hash \<Rightarrow> (Header option \<times> Err option) \<times> World" where
  "ch_GetBlockHeader w bid = (chain_GetBlockHeader (chain w) bid, emit w (Ev_GetBlockHeader bid))"

definition ch_AddBlock :: "World \<Rightarrow> Block \<Rightarrow> bool \<Rightarrow> World" where
  "ch_AddBlock w blk trunk =
     emit (w\<lparr>chain := chain_AddBlock (chain w) blk trunk\<rparr>) (Ev_AddBlock blk trunk)"

definition cs_Consent :: "Consensus \<Rightarrow> World \<Rightarrow> Block \<Rightarrow> 64 word \<Rightarrow> (Err + bool) \<times> World" where
  "cs_Consent cs w blk now = (Consent cs (chain w) blk now, emit w (Ev_Consent blk now))"

definition cs_IsTrunk :: "Consensus \<Rightarrow> World \<Rightarrow> Header \<Rightarrow> (Err + bool) \<times> World" where
  "cs_IsTrunk cs w h = (IsTrunk cs (chain w) h, emit w (Ev_IsTrunk h))"

subsection \<open>\<^verbatim>\<open>events.consent\<close> (lines 307-340)\<close>

text \<open>
  One call of \<^verbatim>\<open>consent\<close> is one \<^verbatim>\<open>select\<close>; which case fires is an input, as is the
  clock reading \<open>now\<close> = \<^verbatim>\<open>uint64(time.Now().Unix())\<close>.
\<close>

datatype Select =
    Recv_blockCh Block
  | Recv_newBlockPacked Block
  | Ctx_Done

definition consent :: "Consensus \<Rightarrow> 64 word \<Rightarrow> Select \<Rightarrow> World \<Rightarrow> World" where
  "consent cs now sel w =
     (case sel of
        Recv_blockCh blk \<Rightarrow>
          (let ((hdr, err), w1) = ch_GetBlockHeader w (ID (Header blk))
           in if \<not> chain_IsNotFound err then w1
              else (let signer = Signer (Header blk);
                        (r, w2) = cs_Consent cs w1 blk now
                    in case r of
                         Inr trunk \<Rightarrow>
                           (let w3 = ch_AddBlock w2 blk trunk
                            in if trunk
                               then (let w4 = emit w3 (Ev_LogInfo (received_trunk blk signer));
                                         w5 = emit w4 (Ev_BroadcastBlock blk)
                                     in emit w5 Ev_TrySend_bestBlockUpdate)
                               else emit w3 (Ev_LogInfo (received_branch blk signer)))
                       | Inl e \<Rightarrow> emit w2 (Ev_LogWarn (received_bad blk signer e))))
      | Recv_newBlockPacked blk \<Rightarrow>
          (let (r, w1) = cs_IsTrunk cs w (Header blk)
           in case r of
                Inr trunk \<Rightarrow>
                  (let w2 = ch_AddBlock w1 blk trunk;
                       w3 = (if trunk then emit w2 (Ev_BroadcastBlock blk) else w2)
                   in emit w3 Ev_Send_newBlockAck)
              | Inl e \<Rightarrow> w1)
      | Ctx_Done \<Rightarrow> w)"

text \<open>The consent goroutine: one \<^verbatim>\<open>consent\<close> per \<^verbatim>\<open>select\<close>, here over a list of firings.\<close>

fun consent_run :: "Consensus \<Rightarrow> (64 word \<times> Select) list \<Rightarrow> World \<Rightarrow> World" where
  "consent_run cs [] w = w"
| "consent_run cs ((now, sel) # rest) w = consent_run cs rest (consent cs now sel w)"

subsection \<open>\<^verbatim>\<open>events.pack\<close> (lines 342-381)\<close>

text \<open>
  The packer's preparation is a parameter: \<^verbatim>\<open>Prepare\<close> gives an error or the slot time
  together with the block under construction \<open>'p\<close>, on which the closures \<^verbatim>\<open>adopt\<close> and
  \<^verbatim>\<open>commit\<close> act.  The transaction iterator is the list of the transactions it has yet to
  give: \<^verbatim>\<open>HasNext\<close> is non-emptiness, \<^verbatim>\<open>Next\<close> takes the head.
\<close>

record 'p Packer =
  Prepare :: "Header \<Rightarrow> 64 word \<Rightarrow> Err + 64 word \<times> 'p"
  adopt :: "'p \<Rightarrow> Tx \<Rightarrow> Err option \<times> 'p"
  commit :: "'p \<Rightarrow> PrivateKey \<Rightarrow> Err + Block"

text \<open>The loop \<^verbatim>\<open>for txIter.HasNext() { ... }\<close> of lines 364-369.\<close>

fun adopt_loop ::
  "('p \<Rightarrow> Tx \<Rightarrow> Err option \<times> 'p) \<Rightarrow> Tx list \<Rightarrow> 'p \<Rightarrow> Event list \<Rightarrow> Tx list \<times> 'p \<times> Event list" where
  "adopt_loop adoptf [] p tr = ([], p, tr)"
| "adopt_loop adoptf (tx # txIter) p tr =
     (let (err, p') = adoptf p tx;
          tr' = tr @ [Ev_adopt tx err]
      in if packer_IsGasLimitReached err then (txIter, p', tr')
         else adopt_loop adoptf txIter p' tr')"

datatype Wait =
    Timer_fired
  | Recv_bestBlockUpdate
  | Wait_Ctx_Done

text \<open>
  \<open>best\<close> is the result of \<^verbatim>\<open>ch.GetBestBlock()\<close>, \<open>wait\<close> the case of the inner \<^verbatim>\<open>select\<close> that
  fires.  The result is the iterator as the call leaves it and the events of the call.
\<close>

definition pack ::
  "'p Packer \<Rightarrow> Err + Block \<Rightarrow> 64 word \<Rightarrow> Wait \<Rightarrow> PrivateKey \<Rightarrow> Tx list \<Rightarrow> Tx list \<times> Event list" where
  "pack pk best now wait privateKey txIter =
     (case best of
        Inl err \<Rightarrow> (txIter, [])
      | Inr bestBlock \<Rightarrow>
          (case Prepare pk (Header bestBlock) now of
             Inl err \<Rightarrow> (txIter, [Ev_Prepare (Header bestBlock) now])
           | Inr (ts, p0) \<Rightarrow>
               (let waitSec = ts - now;
                    tr0 = [Ev_Prepare (Header bestBlock) now,
                           Ev_LogInfo (waiting_to_propose (Number (Header bestBlock) + 1) waitSec),
                           Ev_NewTimer waitSec]
                in case wait of
                     Timer_fired \<Rightarrow>
                       (let (txIter', p1, tr1) = adopt_loop (adopt pk) txIter p0 tr0;
                            tr2 = tr1 @ [Ev_commit privateKey]
                        in case commit pk p1 privateKey of
                             Inr blk \<Rightarrow>
                               (txIter', tr2 @ [Ev_LogInfo (proposed blk),
                                                Ev_Send_newBlockPacked blk,
                                                Ev_Recv_newBlockAck])
                           | Inl err \<Rightarrow> (txIter', tr2))
                   | Recv_bestBlockUpdate \<Rightarrow> (txIter, tr0)
                   | Wait_Ctx_Done \<Rightarrow> (txIter, tr0))))"

section \<open>Vocabulary of the properties\<close>

subsection \<open>Journal contents\<close>

text \<open>
  A binding is well typed when its value has the dynamic type that the facade stores
  under keys of its type (\<^verbatim>\<open>Suicide\<close>, \<^verbatim>\<open>AddRefund\<close>, \<^verbatim>\<open>AddPreimage\<close>, \<^verbatim>\<open>AddLog\<close>), which is
  the type the readers assert.
\<close>

definition well_typed :: "Key \<times> Value \<Rightarrow> bool" where
  "well_typed kv =
     (case kv of
        (suicideFlagKey a, VBool b) \<Rightarrow> True
      | (refundKey, VBigInt p) \<Rightarrow> True
      | (preimageKey h, VBytes b) \<Rightarrow> True
      | (logKey, VLog l) \<Rightarrow> True
      | _ \<Rightarrow> False)"

definition wt_repo :: "StackedMap \<Rightarrow> bool" where
  "wt_repo sm = (list_all well_typed (base sm) \<and> list_all (list_all well_typed) (stack sm))"

text \<open>Every \<^verbatim>\<open>*big.Int\<close> held in the journal points into the heap.\<close>

definition allocated :: "Heap \<Rightarrow> Key \<times> Value \<Rightarrow> bool" where
  "allocated h kv = (case snd kv of VBigInt p \<Rightarrow> p < length h | _ \<Rightarrow> True)"

definition refs_allocated :: "StateDB \<Rightarrow> bool" where
  "refs_allocated s =
     list_all (list_all (allocated (heap s))) (stack (repo s) @ [base (repo s)])"

definition is_preimageKey :: "Key \<Rightarrow> bool" where
  "is_preimageKey k = (case k of preimageKey h \<Rightarrow> True | _ \<Rightarrow> False)"

definition is_logKey :: "Key \<Rightarrow> bool" where
  "is_logKey k = (case k of logKey \<Rightarrow> True | _ \<Rightarrow> False)"

text \<open>The preimages and the logs among a list of journal entries, in the list's order.\<close>

fun preimage_entries :: "(Key \<times> Value) list \<Rightarrow> (Hash \<times> bytes) list" where
  "preimage_entries [] = []"
| "preimage_entries ((preimageKey h, VBytes b) # es) = (h, b) # preimage_entries es"
| "preimage_entries (e # es) = preimage_entries es"

fun log_entries :: "(Key \<times> Value) list \<Rightarrow> Log list" where
  "log_entries [] = []"
| "log_entries ((logKey, VLog l) # es) = l # log_entries es"
| "log_entries (e # es) = log_entries es"

text \<open>Calling a callback on the items of a list, in order, until it returns false.\<close>

fun call_until_false :: "('c \<Rightarrow> 'a \<Rightarrow> bool \<times> 'c) \<Rightarrow> 'a list \<Rightarrow> 'c \<Rightarrow> 'c" where
  "call_until_false cb [] c = c"
| "call_until_false cb (x # xs) c =
     (case cb c x of (continue, c') \<Rightarrow> if continue then call_until_false cb xs c' else c')"

subsection \<open>Sequences of facade mutations\<close>

text \<open>
  The mutating methods of the facade, as data, and their execution one after another;
  a panic ends the sequence.
\<close>

datatype Mutation =
    M_AddBalance Address int
  | M_SubBalance Address int
  | M_SetCode Address bytes
  | M_SetState Address Hash Hash
  | M_AddRefund int
  | M_Suicide Address
  | M_AddLog TypesLog
  | M_AddPreimage Hash bytes

fun mutate :: "Mutation \<Rightarrow> StateDB \<Rightarrow> error + StateDB" where
  "mutate (M_AddBalance a v) s = Inr (AddBalance s a v)"
| "mutate (M_SubBalance a v) s = Inr (SubBalance s a v)"
| "mutate (M_SetCode a c) s = Inr (SetCode s a c)"
| "mutate (M_SetState a k v) s = Inr (SetState s a k v)"
| "mutate (M_AddRefund g) s = AddRefund s g"
| "mutate (M_Suicide a) s = Inr (snd (Suicide s a))"
| "mutate (M_AddLog l) s = Inr (AddLog s l)"
| "mutate (M_AddPreimage h b) s = Inr (AddPreimage s h b)"

fun mutate_all :: "Mutation list \<Rightarrow> StateDB \<Rightarrow> error + StateDB" where
  "mutate_all [] s = Inr s"
| "mutate_all (m # ms) s =
     (case mutate m s of Inl e \<Rightarrow> Inl e | Inr s' \<Rightarrow> mutate_all ms s')"

text \<open>
  What relates a facade \<open>t\<close> to the facade \<open>s\<close> on which \<^verbatim>\<open>Snapshot\<close> was called, while only
  mutations have run since: the checkpoint taken is the latest one, the frame pushed is
  the top one, and the heap has only grown.
\<close>

definition since_snapshot :: "StateDB \<Rightarrow> StateDB \<Rightarrow> bool" where
  "since_snapshot s t =
     (checkpoints (state t) = accounts (state s) # checkpoints (state s) \<and>
      stack (repo t) \<noteq> [] \<and> tl (stack (repo t)) = stack (repo s) \<and>
      base (repo t) = base (repo s) \<and>
      take (length (heap s)) (heap t) = heap s)"

text \<open>The observables of the facade, as values: what each getter returns.\<close>

definition refund_total :: "StateDB \<Rightarrow> error + int" where
  "refund_total s =
     (case GetRefund s of Inl e \<Rightarrow> Inl e | Inr (p, s1) \<Rightarrow> Inr (heap s1 ! p))"

definition suicided :: "StateDB \<Rightarrow> Address \<Rightarrow> error + bool" where
  "suicided s a = (case HasSuicided s a of Inl e \<Rightarrow> Inl e | Inr (b, s1) \<Rightarrow> Inr b)"

definition logs_seen :: "StateDB \<Rightarrow> error + Log list" where
  "logs_seen s =
     (case GetLogs s (\<lambda>seen l. (True, seen @ [l])) [] of
        Inl e \<Rightarrow> Inl e | Inr (seen, s1) \<Rightarrow> Inr seen)"

definition preimages_seen :: "StateDB \<Rightarrow> error + (Hash \<times> bytes) list" where
  "preimages_seen s =
     (case GetPreimages s (\<lambda>seen h b. (True, seen @ [(h, b)])) [] of
        Inl e \<Rightarrow> Inl e | Inr (seen, s1) \<Rightarrow> Inr seen)"

subsection \<open>Traces of the event loops\<close>

definition chain_ids :: "Chain \<Rightarrow> Hash set" where
  "chain_ids ch = set (map (\<lambda>(b, t). ID (Header b)) (blocks ch))"

text \<open>The ids of the blocks handed to \<^verbatim>\<open>AddBlock\<close> in a trace, one per call.\<close>

fun AddBlock_ids :: "Event list \<Rightarrow> Hash list" where
  "AddBlock_ids [] = []"
| "AddBlock_ids (Ev_AddBlock b t # es) = ID (Header b) # AddBlock_ids es"
| "AddBlock_ids (e # es) = AddBlock_ids es"

text \<open>A run of the consent loop in which every \<^verbatim>\<open>select\<close> receives a network block.\<close>

definition deliveries :: "(64 word \<times> Block) list \<Rightarrow> (64 word \<times> Select) list" where
  "deliveries ds = map (\<lambda>(now, blk). (now, Recv_blockCh blk)) ds"

text \<open>
  The adoption as the specification words it: \<^verbatim>\<open>adopt\<close> answers each transaction of
  the iterator in turn (\<open>adopt_each\<close>); the calls made are those up to and including the
  first whose error is GasLimitReached, or all of them when there is none.
\<close>

fun adopt_each ::
  "('p \<Rightarrow> Tx \<Rightarrow> Err option \<times> 'p) \<Rightarrow> Tx list \<Rightarrow> 'p \<Rightarrow> (Tx \<times> Err option) list" where
  "adopt_each adoptf [] p = []"
| "adopt_each adoptf (tx # txs) p =
     (tx, fst (adoptf p tx)) # adopt_each adoptf txs (snd (adoptf p tx))"

definition through_first_GasLimitReached ::
  "(Tx \<times> Err option) list \<Rightarrow> (Tx \<times> Err option) list" where
  "through_first_GasLimitReached cs =
     takeWhile (\<lambda>c. \<not> packer_IsGasLimitReached (snd c)) cs @
     take 1 (dropWhile (\<lambda>c. \<not> packer_IsGasLimitReached (snd c)) cs)"

definition adopt_calls_spec ::
  "('p \<Rightarrow> Tx \<Rightarrow> Err option \<times> 'p) \<Rightarrow> Tx list \<Rightarrow> 'p \<Rightarrow> (Tx \<times> Err option) list" where
  "adopt_calls_spec adoptf txs p = through_first_GasLimitReached (adopt_each adoptf txs p)"

definition adopt_events :: "(Tx \<times> Err option) list \<Rightarrow> Event list" where
  "adopt_events cs = map (\<lambda>(tx, err). Ev_adopt tx err) cs"

section \<open>Example inputs\<close>

text \<open>A state holding one account, at address 1, with balance 100.\<close>

definition example_State :: State where
  "example_State =
     \<lparr> accounts = Map.empty(1 \<mapsto> \<lparr> balance = 100, code = [], storage = (\<lambda>_. 0) \<rparr>),
       checkpoints = [] \<rparr>"

text \<open>A state with no account at all.\<close>

definition empty_State :: State where
  "empty_State = \<lparr> accounts = Map.empty, checkpoints = [] \<rparr>"

text \<open>A facade with two preimages, a log and a suicide flag in its journal.\<close>

definition example_Log :: TypesLog where
  "example_Log = \<lparr> vm_Address = 1, vm_Topics = [8, 9], vm_Data = [1, 2, 3] \<rparr>"

definition example_StateDB :: StateDB where
  "example_StateDB =
     AddPreimage (AddLog (snd (Suicide (AddPreimage (New example_State) 5 [1, 2]) 1))
                    example_Log) 6 [3]"

text \<open>The facade of scenario S2 before its snapshot, and mutations to run after it.\<close>

definition snapshot_example :: StateDB where
  "snapshot_example = AddBalance (New empty_State) 1 100"

definition example_mutations :: "Mutation list" where
  "example_mutations =
     [M_SubBalance 1 40, M_AddRefund 5, M_AddLog example_Log,
      M_AddLog (example_Log\<lparr>vm_Data := [4]\<rparr>), M_AddPreimage 5 [1, 2],
      M_SetCode 1 [7], M_SetState 1 2 3, M_Suicide 1]"

definition example_Block :: Block where
  "example_Block = \<lparr> Header = \<lparr> Number = 1, ID = 7, Signer = 1 \<rparr>, Size = 100 \<rparr>"

definition empty_World :: World where
  "empty_World = \<lparr> chain = \<lparr> blocks = [] \<rparr>, trace = [] \<rparr>"

text \<open>A consenter that accepts every block on the trunk, one that rejects every block.\<close>

definition accepting_Consensus :: Consensus where
  "accepting_Consensus =
     \<lparr> Consent = (\<lambda>ch blk now. Inr True), IsTrunk = (\<lambda>ch h. Inr True) \<rparr>"

definition rejecting_Consensus :: Consensus where
  "rejecting_Consensus =
     \<lparr> Consent = (\<lambda>ch blk now. Inl (errOther 3)), IsTrunk = (\<lambda>ch h. Inl (errOther 3)) \<rparr>"

text \<open>
  A packer whose block under construction is the gas used so far: a transaction costs
  its own number, the limit is 10, transaction 2 is refused for another reason.
\<close>

definition example_adopt :: "nat \<Rightarrow> Tx \<Rightarrow> Err option \<times> nat" where
  "example_adopt p tx =
     (if tx = 2 then (Some (errOther 0), p)
      else if p + tx > 10 then (Some errGasLimitReached, p)
      else (None, p + tx))"

definition example_Packer :: "nat Packer" where
  "example_Packer =
     \<lparr> Prepare = (\<lambda>h now. Inr (now + 3, 0)), adopt = example_adopt,
       commit = (\<lambda>p key. Inr example_Block) \<rparr>"

section \<open>The facade: lemmas\<close>

declare revert_loop.simps [simp del]

lemmas State_defs =
  State_GetBalance_def State_SetBalance_def State_GetCode_def State_SetCode_def
  State_GetStorage_def State_SetStorage_def State_Exists_def State_Delete_def
  State_NewCheckpoint_def State_Revert_def account_of_def emptyAccount_def

lemmas sm_defs =
  stackedmap_New_def sm_Get_def sm_Put_def sm_Depth_def sm_Push_def sm_PopTo_def
  sm_entries_def sm_Journal_def getter_def alloc_def

lemmas site_defs =
  called_def state_GetBalance_def state_SetBalance_def state_GetCode_def state_SetCode_def
  state_GetStorage_def state_SetStorage_def state_Exists_def state_Delete_def
  state_NewCheckpoint_def state_Revert_def repo_Get_def repo_Put_def repo_Push_def
  repo_Depth_def repo_PopTo_def repo_Journal_def

lemmas method_defs =
  New_def GetRefund_def GetPreimages_def GetLogs_def preimage_visitor_def log_visitor_def
  GetBalance_def SubBalance_def AddBalance_def GetCode_def SetCode_def HasSuicided_def
  Suicide_def GetState_def SetState_def AddRefund_def AddPreimage_def AddLog_def
  vmlogToLog_def Snapshot_def

lemma State_GetBalance_SetBalance: "State_GetBalance (State_SetBalance st a v) a = v"
  by (simp add: State_GetBalance_def State_SetBalance_def account_of_def)

lemma State_Revert_restores:
  "checkpoints st = saved # older \<Longrightarrow>
   State_Revert st = \<lparr> accounts = saved, checkpoints = older \<rparr>"
  by (simp add: State_Revert_def)

lemma sm_Get_Put_same: "sm_Get (sm_Put sm k v) k h = (v, h)"
  by (cases "stack sm") (simp_all add: sm_Get_def sm_Put_def)

text \<open>The loop of \<^verbatim>\<open>RevertToSnapshot\<close> in closed form, by induction along its recursion.\<close>

lemma revert_loop_eq:
  "revert_loop i n s =
     s\<lparr>state := (State_Revert ^^ nat (n - i)) (state s),
       calls := calls s @ replicate (nat (n - i)) Call_Revert\<rparr>"
proof (induction i n s rule: revert_loop.induct)
  case (1 i n s)
  show ?case
  proof (cases "i < n")
    case True
    then have n: "nat (n - i) = Suc (nat (n - (i + 1)))" by simp
    have "revert_loop i n s = revert_loop (i + 1) n (state_Revert s)"
      using True by (subst revert_loop.simps) simp
    also have "\<dots> =
        (state_Revert s)\<lparr>state := (State_Revert ^^ nat (n - (i + 1))) (state (state_Revert s)),
          calls := calls (state_Revert s) @ replicate (nat (n - (i + 1))) Call_Revert\<rparr>"
      using 1 True by simp
    also have "\<dots> =
        s\<lparr>state := (State_Revert ^^ nat (n - i)) (state s),
          calls := calls s @ replicate (nat (n - i)) Call_Revert\<rparr>"
      unfolding n by (simp add: state_Revert_def called_def funpow_swap1 replicate_append_same)
    finally show ?thesis .
  next
    case False
    then show ?thesis by (subst revert_loop.simps) simp
  qed
qed

lemma RevertToSnapshot_out_of_range:
  "r < 0 \<or> r > sm_Depth (repo s) \<Longrightarrow>
   RevertToSnapshot s r = Inl (InvalidSnapshotRevision r (sm_Depth (repo s)))"
  by (auto simp add: RevertToSnapshot_def repo_Depth_def called_def Let_def)

lemma RevertToSnapshot_in_range:
  "\<not> (r < 0 \<or> r > sm_Depth (repo s)) \<Longrightarrow>
   RevertToSnapshot s r =
     Inr (s\<lparr>state := (State_Revert ^^ nat (sm_Depth (repo s) - r)) (state s),
            repo := (repo s)\<lparr>stack := drop (nat (sm_Depth (repo s) - r)) (stack (repo s))\<rparr>,
            calls := calls s @ [Call_Depth, Call_Depth]
                       @ replicate (nat (sm_Depth (repo s) - r)) Call_Revert
                       @ [Call_PopTo r]\<rparr>)"
  by (auto simp add: RevertToSnapshot_def repo_Depth_def called_def revert_loop_eq
      repo_PopTo_def sm_PopTo_def Let_def)

section \<open>The facade: properties\<close>

text \<open>
  C3.  \<^verbatim>\<open>RevertToSnapshot(rev)\<close> panics exactly when \<open>rev < 0\<close> or \<open>rev\<close> exceeds the
  journal's depth (with the revision and the depth in its message).  Otherwise it
  returns, having called \<^verbatim>\<open>Revert\<close> on the underlying state \<open>depth - rev\<close> times and
  \<^verbatim>\<open>PopTo(rev)\<close> on the journal after the last of them: after the two reads of the depth,
  the calls it makes are that many \<^verbatim>\<open>Revert\<close>s followed by the one \<^verbatim>\<open>PopTo\<close>.
\<close>

theorem RevertToSnapshot_panics_iff_out_of_range_else_reverts_then_pops:
  "((\<exists>e. RevertToSnapshot s r = Inl e) \<longleftrightarrow> (r < 0 \<or> r > sm_Depth (repo s))) \<and>
   (r < 0 \<or> r > sm_Depth (repo s) \<longrightarrow>
      RevertToSnapshot s r = Inl (InvalidSnapshotRevision r (sm_Depth (repo s)))) \<and>
   (\<not> (r < 0 \<or> r > sm_Depth (repo s)) \<longrightarrow>
      RevertToSnapshot s r =
        Inr (s\<lparr>state := (State_Revert ^^ nat (sm_Depth (repo s) - r)) (state s),
               repo := (repo s)\<lparr>stack := drop (nat (sm_Depth (repo s) - r)) (stack (repo s))\<rparr>,
               calls := calls s @ [Call_Depth, Call_Depth]
                          @ replicate (nat (sm_Depth (repo s) - r)) Call_Revert
                          @ [Call_PopTo r]\<rparr>))"
proof (cases "r < 0 \<or> r > sm_Depth (repo s)")
  case True
  from RevertToSnapshot_out_of_range[OF True] True show ?thesis by simp
next
  case False
  from RevertToSnapshot_in_range[OF False] False show ?thesis by simp
qed

text \<open>
  At depth 2 (after two snapshots of the example state): reverting to 0 makes two
  \<^verbatim>\<open>Revert\<close> calls and then \<^verbatim>\<open>PopTo(0)\<close>; reverting to 3 or to -1 panics.
\<close>

theorem RevertToSnapshot_witness:
  "calls (projr (RevertToSnapshot (snd (Snapshot (snd (Snapshot (New example_State))))) 0)) =
     [Call_NewCheckpoint, Call_Push, Call_NewCheckpoint, Call_Push,
      Call_Depth, Call_Depth, Call_Revert, Call_Revert, Call_PopTo 0] \<and>
   RevertToSnapshot (snd (Snapshot (snd (Snapshot (New example_State))))) 3 =
     Inl (InvalidSnapshotRevision 3 2) \<and>
   RevertToSnapshot (snd (Snapshot (snd (Snapshot (New example_State))))) (- 1) =
     Inl (InvalidSnapshotRevision (- 1) 2)"
  using RevertToSnapshot_panics_iff_out_of_range_else_reverts_then_pops
          [of "snd (Snapshot (snd (Snapshot (New example_State))))" 0]
        RevertToSnapshot_panics_iff_out_of_range_else_reverts_then_pops
          [of "snd (Snapshot (snd (Snapshot (New example_State))))" 3]
        RevertToSnapshot_panics_iff_out_of_range_else_reverts_then_pops
          [of "snd (Snapshot (snd (Snapshot (New example_State))))" "- 1"]
  by (simp add: Snapshot_def New_def site_defs sm_defs eval_nat_numeral)

text \<open>
  C4.  \<^verbatim>\<open>Suicide(a)\<close> on an address that does not exist in the underlying state
  returns false and leaves the state, the journal and the heap as they were (its one
  call is the \<^verbatim>\<open>Exists\<close> read).  On an address that exists it returns true, having
  called \<^verbatim>\<open>Delete(a)\<close> on the underlying state and put \<open>true\<close> under \<open>a\<close>'s suicide-flag
  key, so that \<^verbatim>\<open>HasSuicided(a)\<close> then returns true.
\<close>

theorem Suicide_absent_untouched_present_deleted_and_flagged:
  "(\<not> State_Exists (state s) a \<longrightarrow>
      Suicide s a = (False, s\<lparr>calls := calls s @ [Call_Exists a]\<rparr>)) \<and>
   (State_Exists (state s) a \<longrightarrow>
      Suicide s a =
        (True, s\<lparr>state := State_Delete (state s) a,
                 repo := sm_Put (repo s) (suicideFlagKey a) (VBool True),
                 calls := calls s @ [Call_Exists a, Call_Delete a,
                                     Call_Put (suicideFlagKey a) (VBool True)]\<rparr>) \<and>
      (\<exists>s'. HasSuicided (snd (Suicide s a)) a = Inr (True, s')))"
  by (simp add: Suicide_def state_Exists_def state_Delete_def repo_Put_def called_def
      HasSuicided_def repo_Get_def sm_Get_Put_same)

text \<open>In the example state address 2 does not exist and address 1 does.\<close>

theorem Suicide_witness:
  "Suicide (New example_State) 2 = (False, (New example_State)\<lparr>calls := [Call_Exists 2]\<rparr>) \<and>
   fst (Suicide (New example_State) 1) = True \<and>
   State_Exists (state (snd (Suicide (New example_State) 1))) 1 = False \<and>
   suicided (snd (Suicide (New example_State) 1)) 1 = Inr True \<and>
   suicided (New example_State) 1 = Inr False"
  using Suicide_absent_untouched_present_deleted_and_flagged [of "New example_State" 2]
        Suicide_absent_untouched_present_deleted_and_flagged [of "New example_State" 1]
  by (auto simp add: New_def example_State_def State_defs suicided_def HasSuicided_def
      site_defs sm_defs)

text \<open>
  C6.  \<^verbatim>\<open>AddBalance(a, 0)\<close> and \<^verbatim>\<open>SubBalance(a, 0)\<close> leave everything as it was, the record
  of calls included: no read of and no write to the underlying state.  For a nonzero
  amount each makes one \<^verbatim>\<open>GetBalance(a)\<close> and then one \<^verbatim>\<open>SetBalance\<close> of the old balance
  plus (respectively minus) the amount, whatever the sign of the result.
\<close>

theorem balance_ops_zero_exact_noop_nonzero_read_modify_write:
  "AddBalance s a 0 = s \<and> SubBalance s a 0 = s \<and>
   (amount \<noteq> 0 \<longrightarrow>
      AddBalance s a amount =
        s\<lparr>state := State_SetBalance (state s) a (State_GetBalance (state s) a + amount),
          calls := calls s @ [Call_GetBalance a,
                              Call_SetBalance a (State_GetBalance (state s) a + amount)]\<rparr> \<and>
      SubBalance s a amount =
        s\<lparr>state := State_SetBalance (state s) a (State_GetBalance (state s) a - amount),
          calls := calls s @ [Call_GetBalance a,
                              Call_SetBalance a (State_GetBalance (state s) a - amount)]\<rparr> \<and>
      fst (GetBalance (AddBalance s a amount) a) = fst (GetBalance s a) + amount \<and>
      fst (GetBalance (SubBalance s a amount) a) = fst (GetBalance s a) - amount)"
  by (simp add: AddBalance_def SubBalance_def GetBalance_def state_GetBalance_def
      state_SetBalance_def called_def State_GetBalance_SetBalance sgn_if)

text \<open>Subtracting 140 from the balance 100 stores -40: there is no underflow check.\<close>

theorem balance_ops_witness:
  "fst (GetBalance (SubBalance (New example_State) 1 140) 1) = - 40 \<and>
   calls (SubBalance (New example_State) 1 140) =
     [Call_GetBalance 1, Call_SetBalance 1 (- 40)] \<and>
   fst (GetBalance (AddBalance (New example_State) 1 5) 1) = 105 \<and>
   calls (SubBalance (New example_State) 1 0) = []"
  using balance_ops_zero_exact_noop_nonzero_read_modify_write [of "New example_State" 1 140]
        balance_ops_zero_exact_noop_nonzero_read_modify_write [of "New example_State" 1 5]
  by (simp add: New_def example_State_def GetBalance_def AddBalance_def SubBalance_def
      site_defs State_defs)

subsection \<open>Well-typed journals\<close>

lemma wt_repo_New: "wt_repo (repo (New st))"
  by (simp add: wt_repo_def New_def stackedmap_New_def)

lemma wt_repo_Put: "wt_repo sm \<Longrightarrow> well_typed (k, v) \<Longrightarrow> wt_repo (sm_Put sm k v)"
  by (cases "stack sm") (simp_all add: wt_repo_def sm_Put_def)

lemma find_binding_in_frames:
  "find_binding fs k = Some v \<Longrightarrow> \<exists>f \<in> set fs. (k, v) \<in> set f"
proof (induction fs)
  case Nil
  then show ?case by simp
next
  case (Cons f fs)
  show ?case
  proof (cases "map_of (rev f) k")
    case None
    with Cons show ?thesis by simp
  next
    case (Some u)
    with Cons.prems have "u = v" by simp
    moreover from Some have "(k, u) \<in> set (rev f)" by (rule map_of_SomeD)
    ultimately have "u = v" and "(k, u) \<in> set f" by simp_all
    then show ?thesis by auto
  qed
qed

lemma find_binding_list_all:
  "list_all (list_all P) fs \<Longrightarrow> find_binding fs k = Some v \<Longrightarrow> P (k, v)"
  using find_binding_in_frames[of fs k v] by (auto simp add: list_all_iff)

lemma wt_refund_binding:
  assumes "wt_repo sm" and "find_binding (stack sm @ [base sm]) refundKey = Some v"
  obtains q where "v = VBigInt q"
proof -
  have "list_all (list_all well_typed) (stack sm @ [base sm])"
    using assms(1) by (simp add: wt_repo_def)
  from find_binding_list_all[OF this assms(2)] show thesis
    using that by (cases v) (simp_all add: well_typed_def)
qed

lemma sm_Get_refundKey:
  assumes "wt_repo sm"
  shows "\<exists>p h1. sm_Get sm refundKey h = (VBigInt p, h1) \<and>
          (find_binding (stack sm @ [base sm]) refundKey = None \<longrightarrow>
             p = length h \<and> h1 = h @ [0]) \<and>
          (\<forall>q. find_binding (stack sm @ [base sm]) refundKey = Some (VBigInt q) \<longrightarrow>
             p = q \<and> h1 = h)"
proof (cases "find_binding (stack sm @ [base sm]) refundKey")
  case None
  then show ?thesis by (simp add: sm_Get_def getter_def alloc_def)
next
  case (Some v)
  from wt_refund_binding[OF assms Some] obtain q where "v = VBigInt q" .
  with Some show ?thesis by (simp add: sm_Get_def)
qed

text \<open>
  C9.  On a well-typed journal \<^verbatim>\<open>AddRefund(gas)\<close> does not panic.  It leaves every
  \<^verbatim>\<open>big.Int\<close> allocated before it as it was, the one previously stored under the refund
  key included, and stores under the refund key a pointer to a cell allocated by the
  call, holding the old total plus \<open>gas\<close>.  The frames below the top one are unchanged.
  \<^verbatim>\<open>GetRefund\<close> returns the pointer of the topmost binding of the refund key, and a
  pointer to a new zero when no frame binds it; after \<^verbatim>\<open>AddRefund\<close> it returns the
  pointer just stored.
\<close>

theorem AddRefund_stores_fresh_total:
  "wt_repo (repo s) \<Longrightarrow>
   \<exists>p h1 s'.
     sm_Get (repo s) refundKey (heap s) = (VBigInt p, h1) \<and>
     (find_binding (stack (repo s) @ [base (repo s)]) refundKey = None \<longrightarrow>
        p = length (heap s) \<and> h1 = heap s @ [0]) \<and>
     (\<forall>q. find_binding (stack (repo s) @ [base (repo s)]) refundKey = Some (VBigInt q) \<longrightarrow>
        p = q \<and> h1 = heap s) \<and>
     GetRefund s = Inr (p, s\<lparr>heap := h1, calls := calls s @ [Call_Get refundKey]\<rparr>) \<and>
     AddRefund s gas = Inr s' \<and>
     s' = s\<lparr>heap := h1 @ [h1 ! p + gas],
            repo := sm_Put (repo s) refundKey (VBigInt (length h1)),
            calls := calls s @ [Call_Get refundKey, Call_Put refundKey (VBigInt (length h1))]\<rparr> \<and>
     take (length (heap s)) (heap s') = heap s \<and>
     length (heap s) \<le> length h1 \<and>
     heap s' ! length h1 = h1 ! p + gas \<and>
     tl (stack (repo s')) = tl (stack (repo s)) \<and>
     (stack (repo s) \<noteq> [] \<longrightarrow> base (repo s') = base (repo s)) \<and>
     GetRefund s' = Inr (length h1, s'\<lparr>calls := calls s' @ [Call_Get refundKey]\<rparr>)"
proof -
  assume wt: "wt_repo (repo s)"
  from sm_Get_refundKey[OF wt, of "heap s"] obtain p h1 where
    get: "sm_Get (repo s) refundKey (heap s) = (VBigInt p, h1)" and
    none: "find_binding (stack (repo s) @ [base (repo s)]) refundKey = None \<longrightarrow>
             p = length (heap s) \<and> h1 = heap s @ [0]" and
    some: "\<forall>q. find_binding (stack (repo s) @ [base (repo s)]) refundKey = Some (VBigInt q) \<longrightarrow>
             p = q \<and> h1 = heap s"
    by (elim exE conjE) (rule that)
  define s' where "s' = s\<lparr>heap := h1 @ [h1 ! p + gas],
            repo := sm_Put (repo s) refundKey (VBigInt (length h1)),
            calls := calls s @ [Call_Get refundKey, Call_Put refundKey (VBigInt (length h1))]\<rparr>"
  have ext: "h1 = heap s \<or> h1 = heap s @ [0]"
    using get by (auto simp add: sm_Get_def getter_def alloc_def split: option.splits)
  have 1: "GetRefund s = Inr (p, s\<lparr>heap := h1, calls := calls s @ [Call_Get refundKey]\<rparr>)"
    by (simp add: GetRefund_def repo_Get_def get called_def)
  have 2: "AddRefund s gas = Inr s'"
    by (simp add: AddRefund_def repo_Get_def get called_def alloc_def repo_Put_def s'_def)
  have 3: "take (length (heap s)) (heap s') = heap s"
    using ext by (auto simp add: s'_def)
  have 4: "length (heap s) \<le> length h1" using ext by auto
  have 5: "heap s' ! length h1 = h1 ! p + gas" by (simp add: s'_def)
  have 6: "tl (stack (repo s')) = tl (stack (repo s))"
    by (cases "stack (repo s)") (simp_all add: s'_def sm_Put_def)
  have 7: "stack (repo s) \<noteq> [] \<longrightarrow> base (repo s') = base (repo s)"
    by (cases "stack (repo s)") (simp_all add: s'_def sm_Put_def)
  have 8: "GetRefund s' = Inr (length h1, s'\<lparr>calls := calls s' @ [Call_Get refundKey]\<rparr>)"
    by (simp add: GetRefund_def repo_Get_def called_def s'_def sm_Get_Put_same)
  show ?thesis
    apply (rule exI[of _ p], rule exI[of _ h1], rule exI[of _ s'])
    apply (intro conjI)
    by (fact get none some 1 2 3 4 5 6 7 8 s'_def)+
qed

text \<open>
  A refund of 7, a snapshot, a refund of 5: the heap holds the zero read first, then 7,
  then 12; the base frame still points to the cell holding 7, the top frame to the one
  holding 12.
\<close>

theorem AddRefund_witness:
  "wt_repo (repo (snd (Snapshot (projr (AddRefund (New example_State) 7))))) \<and>
   heap (projr (AddRefund (snd (Snapshot (projr (AddRefund (New example_State) 7)))) 5)) =
     [0, 7, 12] \<and>
   base (repo (projr (AddRefund (snd (Snapshot (projr (AddRefund (New example_State) 7)))) 5))) =
     [(refundKey, VBigInt 1)] \<and>
   stack (repo (projr (AddRefund (snd (Snapshot (projr (AddRefund (New example_State) 7)))) 5))) =
     [[(refundKey, VBigInt 2)]] \<and>
   refund_total (projr (AddRefund (snd (Snapshot (projr (AddRefund (New example_State) 7)))) 5)) =
     Inr 12 \<and>
   refund_total (New example_State) = Inr 0"
proof -
  have wt: "wt_repo (repo (snd (Snapshot (projr (AddRefund (New example_State) 7)))))"
    by (simp add: wt_repo_def well_typed_def method_defs site_defs sm_defs)
  from AddRefund_stores_fresh_total[OF wt, of 5] wt show ?thesis
    by (auto simp add: refund_total_def method_defs site_defs sm_defs)
qed

subsection \<open>Enumerating the journal\<close>

lemma preimage_visitor_other:
  "\<not> is_preimageKey k \<Longrightarrow> preimage_visitor cb c k v = Inr (True, c)"
  by (cases k) (simp_all add: preimage_visitor_def is_preimageKey_def)

lemma log_visitor_other: "\<not> is_logKey k \<Longrightarrow> log_visitor cb c k v = Inr (True, c)"
  by (cases k) (simp_all add: log_visitor_def is_logKey_def)

text \<open>A visitor that continues on an entry without touching the accumulator skips it.\<close>

lemma traverse_skips:
  "(\<And>c k v. \<not> P k \<Longrightarrow> visit c k v = Inr (True, c)) \<Longrightarrow>
   traverse es visit c = traverse (filter (\<lambda>e. P (fst e)) es) visit c"
proof (induction es arbitrary: c)
  case Nil
  then show ?case by simp
next
  case (Cons e es)
  obtain k v where e: "e = (k, v)" by (cases e)
  show ?case
  proof (cases "P k")
    case True
    then show ?thesis
      by (simp add: e Cons.IH[OF Cons.prems] split: sum.splits prod.splits)
  next
    case False
    then show ?thesis
      by (simp add: e Cons.prems Cons.IH[OF Cons.prems])
  qed
qed

lemma traverse_preimage_visitor:
  "list_all well_typed es \<Longrightarrow>
   traverse es (preimage_visitor cb) c =
     Inr (call_until_false (\<lambda>c (h, b). cb c h b) (preimage_entries es) c)"
proof (induction es arbitrary: c)
  case Nil
  then show ?case by simp
next
  case (Cons e es)
  obtain k v where e: "e = (k, v)" by (cases e)
  from Cons.prems have wt: "well_typed (k, v)" and rest: "list_all well_typed es"
    by (simp_all add: e)
  show ?case
  proof (cases k)
    case (preimageKey h)
    with wt obtain b where v: "v = VBytes b"
      by (cases v) (simp_all add: well_typed_def)
    have "preimage_visitor cb c k v = Inr (cb c h b)"
      by (simp add: preimageKey v preimage_visitor_def)
    then show ?thesis
      by (simp add: e preimageKey v Cons.IH[OF rest] split: prod.splits)
  next
    case (suicideFlagKey a)
    then have "preimage_visitor cb c k v = Inr (True, c)"
      by (simp add: preimage_visitor_other is_preimageKey_def)
    then show ?thesis
      using wt by (cases v) (simp_all add: e suicideFlagKey Cons.IH[OF rest] well_typed_def)
  next
    case refundKey
    then have "preimage_visitor cb c k v = Inr (True, c)"
      by (simp add: preimage_visitor_other is_preimageKey_def)
    then show ?thesis
      using wt by (cases v) (simp_all add: e refundKey Cons.IH[OF rest] well_typed_def)
  next
    case logKey
    then have "preimage_visitor cb c k v = Inr (True, c)"
      by (simp add: preimage_visitor_other is_preimageKey_def)
    then show ?thesis
      using wt by (cases v) (simp_all add: e logKey Cons.IH[OF rest] well_typed_def)
  qed
qed

lemma traverse_log_visitor:
  "list_all well_typed es \<Longrightarrow>
   traverse es (log_visitor cb) c = Inr (call_until_false cb (log_entries es) c)"
proof (induction es arbitrary: c)
  case Nil
  then show ?case by simp
next
  case (Cons e es)
  obtain k v where e: "e = (k, v)" by (cases e)
  from Cons.prems have wt: "well_typed (k, v)" and rest: "list_all well_typed es"
    by (simp_all add: e)
  show ?case
  proof (cases k)
    case logKey
    with wt obtain l where v: "v = VLog l"
      by (cases v) (simp_all add: well_typed_def)
    have "log_visitor cb c k v = Inr (cb c l)"
      by (simp add: logKey v log_visitor_def)
    then show ?thesis
      by (simp add: e logKey v Cons.IH[OF rest] split: prod.splits)
  next
    case (suicideFlagKey a)
    then have "log_visitor cb c k v = Inr (True, c)"
      by (simp add: log_visitor_other is_logKey_def)
    then show ?thesis
      using wt by (cases v) (simp_all add: e suicideFlagKey Cons.IH[OF rest] well_typed_def)
  next
    case refundKey
    then have "log_visitor cb c k v = Inr (True, c)"
      by (simp add: log_visitor_other is_logKey_def)
    then show ?thesis
      using wt by (cases v) (simp_all add: e refundKey Cons.IH[OF rest] well_typed_def)
  next
    case (preimageKey h)
    then have "log_visitor cb c k v = Inr (True, c)"
      by (simp add: log_visitor_other is_logKey_def)
    then show ?thesis
      using wt by (cases v) (simp_all add: e preimageKey Cons.IH[OF rest] well_typed_def)
  qed
qed

lemma sm_entries_well_typed: "wt_repo sm \<Longrightarrow> list_all well_typed (sm_entries sm)"
  by (auto simp add: wt_repo_def sm_entries_def list_all_iff)

text \<open>
  C10.  The visitor of \<^verbatim>\<open>GetPreimages\<close> answers an entry whose key is not a preimage key
  with "continue" and the accumulator untouched, that is without calling the callback;
  the visitor of \<^verbatim>\<open>GetLogs\<close> does so for a key that is not the log key.  Hence each
  enumeration is the traversal of the entries of its own key type alone: no other
  entry ends it or is shown to the callback.  On a well-typed journal \<^verbatim>\<open>GetPreimages\<close>
  is the callback called on the journal's preimages, in order, until it returns false,
  and \<^verbatim>\<open>GetLogs\<close> the same on the journal's logs.
\<close>

theorem enumerations_skip_entries_of_other_keys:
  "(\<not> is_preimageKey k \<longrightarrow> preimage_visitor pcb pc k v = Inr (True, pc)) \<and>
   (\<not> is_logKey k \<longrightarrow> log_visitor lcb lc k v = Inr (True, lc)) \<and>
   sm_Journal (repo s) (preimage_visitor pcb) pc =
     traverse (filter (\<lambda>e. is_preimageKey (fst e)) (sm_entries (repo s)))
       (preimage_visitor pcb) pc \<and>
   sm_Journal (repo s) (log_visitor lcb) lc =
     traverse (filter (\<lambda>e. is_logKey (fst e)) (sm_entries (repo s))) (log_visitor lcb) lc \<and>
   (wt_repo (repo s) \<longrightarrow>
      GetPreimages s pcb pc =
        Inr (call_until_false (\<lambda>c (h, b). pcb c h b)
               (preimage_entries (sm_entries (repo s))) pc,
             called s Call_Journal) \<and>
      GetLogs s lcb lc =
        Inr (call_until_false lcb (log_entries (sm_entries (repo s))) lc,
             called s Call_Journal))"
proof (intro conjI impI)
  show "sm_Journal (repo s) (preimage_visitor pcb) pc =
     traverse (filter (\<lambda>e. is_preimageKey (fst e)) (sm_entries (repo s)))
       (preimage_visitor pcb) pc"
    unfolding sm_Journal_def by (rule traverse_skips) (rule preimage_visitor_other)
  show "sm_Journal (repo s) (log_visitor lcb) lc =
     traverse (filter (\<lambda>e. is_logKey (fst e)) (sm_entries (repo s))) (log_visitor lcb) lc"
    unfolding sm_Journal_def by (rule traverse_skips) (rule log_visitor_other)
next
  assume "\<not> is_preimageKey k"
  then show "preimage_visitor pcb pc k v = Inr (True, pc)" by (rule preimage_visitor_other)
next
  assume "\<not> is_logKey k"
  then show "log_visitor lcb lc k v = Inr (True, lc)" by (rule log_visitor_other)
next
  assume wt: "wt_repo (repo s)"
  show "GetPreimages s pcb pc =
        Inr (call_until_false (\<lambda>c (h, b). pcb c h b)
               (preimage_entries (sm_entries (repo s))) pc,
             called s Call_Journal)"
    by (simp add: GetPreimages_def repo_Journal_def sm_Journal_def
        traverse_preimage_visitor[OF sm_entries_well_typed[OF wt]])
  show "GetLogs s lcb lc =
        Inr (call_until_false lcb (log_entries (sm_entries (repo s))) lc,
             called s Call_Journal)"
    by (simp add: GetLogs_def repo_Journal_def sm_Journal_def
        traverse_log_visitor[OF sm_entries_well_typed[OF wt]])
qed

text \<open>
  The example journal holds, in order, preimage 5, a suicide flag, a log and preimage
  6.  The preimage enumeration sees 5 and 6, the log enumeration the log; a callback
  that returns false at once sees preimage 5 only.
\<close>

theorem enumerations_witness:
  "sm_entries (repo example_StateDB) =
     [(preimageKey 5, VBytes [1, 2]), (suicideFlagKey 1, VBool True),
      (logKey, VLog \<lparr> Address = 1, Topics = [8, 9], Data = [1, 2, 3] \<rparr>),
      (preimageKey 6, VBytes [3])] \<and>
   preimages_seen example_StateDB = Inr [(5, [1, 2]), (6, [3])] \<and>
   logs_seen example_StateDB = Inr [\<lparr> Address = 1, Topics = [8, 9], Data = [1, 2, 3] \<rparr>] \<and>
   map_sum id fst (GetPreimages example_StateDB (\<lambda>seen h b. (False, seen @ [h])) []) = Inr [5] \<and>
   log_visitor (\<lambda>seen l. (False, seen @ [l])) [] (suicideFlagKey 1) (VBool True) = Inr (True, [])"
proof -
  have entries: "sm_entries (repo example_StateDB) =
     [(preimageKey 5, VBytes [1, 2]), (suicideFlagKey 1, VBool True),
      (logKey, VLog \<lparr> Address = 1, Topics = [8, 9], Data = [1, 2, 3] \<rparr>),
      (preimageKey 6, VBytes [3])]"
    by (simp add: example_StateDB_def example_State_def example_Log_def method_defs site_defs
        sm_defs State_defs)
  have wt: "wt_repo (repo example_StateDB)"
    by (simp add: wt_repo_def well_typed_def example_StateDB_def example_State_def
        example_Log_def method_defs site_defs sm_defs State_defs)
  have other: "\<not> is_logKey (suicideFlagKey 1)" by (simp add: is_logKey_def)
  from enumerations_skip_entries_of_other_keys
         [of "suicideFlagKey 1" "\<lambda>seen h b. (True, seen @ [(h, b)])" "[]" "VBool True"
             "\<lambda>seen l. (False, seen @ [l])" "[]" example_StateDB]
       enumerations_skip_entries_of_other_keys
         [of "suicideFlagKey 1" "\<lambda>seen h b. (False, seen @ [h])" "[]" "VBool True"
             "\<lambda>seen l. (True, seen @ [l])" "[]" example_StateDB]
       wt other entries
  show ?thesis
    by (simp add: preimages_seen_def logs_seen_def)
qed

subsection \<open>The invariants hold in every state the facade reaches\<close>

lemma wt_repo_mutate:
  assumes "wt_repo (repo s)" and "mutate m s = Inr s'"
  shows "wt_repo (repo s')"
proof (cases m)
  case (M_AddRefund g)
  obtain v h1 where get: "sm_Get (repo s) refundKey (heap s) = (v, h1)"
    by (cases "sm_Get (repo s) refundKey (heap s)")
  from assms(2) M_AddRefund get obtain p where v: "v = VBigInt p"
    by (cases v) (simp_all add: AddRefund_def repo_Get_def)
  from assms(2) M_AddRefund
  have "repo s' = sm_Put (repo s) refundKey (VBigInt (length h1))"
    by (auto simp add: AddRefund_def repo_Get_def get v alloc_def called_def repo_Put_def)
  then show ?thesis using assms(1) by (simp add: wt_repo_Put well_typed_def)
next
  case (M_Suicide a)
  then show ?thesis using assms
    by (auto simp add: Suicide_def state_Exists_def state_Delete_def repo_Put_def called_def
        wt_repo_Put well_typed_def split: if_splits)
next
  case (M_AddLog l)
  then show ?thesis using assms
    by (auto simp add: AddLog_def repo_Put_def called_def wt_repo_Put well_typed_def)
next
  case (M_AddPreimage h b)
  then show ?thesis using assms
    by (auto simp add: AddPreimage_def repo_Put_def called_def wt_repo_Put well_typed_def)
next
  case (M_AddBalance a v)
  then show ?thesis using assms
    by (auto simp add: AddBalance_def state_GetBalance_def state_SetBalance_def called_def
        split: if_splits)
next
  case (M_SubBalance a v)
  then show ?thesis using assms
    by (auto simp add: SubBalance_def state_GetBalance_def state_SetBalance_def called_def
        split: if_splits)
next
  case (M_SetCode a c)
  then show ?thesis using assms by (auto simp add: SetCode_def state_SetCode_def called_def)
next
  case (M_SetState a k v)
  then show ?thesis using assms by (auto simp add: SetState_def state_SetStorage_def called_def)
qed

lemma mutate_returns: "wt_repo (repo s) \<Longrightarrow> \<exists>s'. mutate m s = Inr s'"
proof (cases m)
  case (M_AddRefund g)
  assume "wt_repo (repo s)"
  from sm_Get_refundKey[OF this, of "heap s"] obtain p h1 where
    "sm_Get (repo s) refundKey (heap s) = (VBigInt p, h1)" by blast
  then show ?thesis using M_AddRefund
    by (simp add: AddRefund_def repo_Get_def alloc_def)
qed simp_all

lemma mutate_all_returns:
  "wt_repo (repo s) \<Longrightarrow> \<exists>t. mutate_all ms s = Inr t \<and> wt_repo (repo t)"
proof (induction ms arbitrary: s)
  case Nil
  then show ?case by simp
next
  case (Cons m ms)
  from mutate_returns[OF Cons.prems, of m] obtain s1 where 1: "mutate m s = Inr s1" by blast
  from wt_repo_mutate[OF Cons.prems 1] have "wt_repo (repo s1)" .
  from Cons.IH[OF this] 1 show ?case by simp
qed

lemma wt_repo_Snapshot: "wt_repo (repo s) \<Longrightarrow> wt_repo (repo (snd (Snapshot s)))"
  by (simp add: wt_repo_def Snapshot_def repo_Push_def sm_Push_def state_NewCheckpoint_def
      called_def)

lemma list_all_drop: "list_all P xs \<Longrightarrow> list_all P (drop n xs)"
  using set_drop_subset[of n xs] by (auto simp add: list_all_iff)

lemma wt_repo_RevertToSnapshot:
  assumes "wt_repo (repo s)" and "RevertToSnapshot s r = Inr s'"
  shows "wt_repo (repo s')"
proof (cases "r < 0 \<or> r > sm_Depth (repo s)")
  case True
  from RevertToSnapshot_out_of_range[OF True] assms(2) show ?thesis by simp
next
  case False
  from RevertToSnapshot_in_range[OF False] assms(2)
  have "repo s' = (repo s)\<lparr>stack := drop (nat (sm_Depth (repo s) - r)) (stack (repo s))\<rparr>"
    by auto
  then show ?thesis using assms(1) by (simp add: wt_repo_def list_all_drop)
qed

lemma allocated_grows: "allocated h kv \<Longrightarrow> length h \<le> length h' \<Longrightarrow> allocated h' kv"
  by (cases "snd kv") (simp_all add: allocated_def)

lemma frames_allocated_grow:
  "list_all (list_all (allocated h)) fs \<Longrightarrow> length h \<le> length h' \<Longrightarrow>
   list_all (list_all (allocated h')) fs"
  by (auto simp add: list_all_iff intro: allocated_grows)

lemma frames_allocated_Put:
  "list_all (list_all (allocated h)) (stack sm @ [base sm]) \<Longrightarrow> allocated h (k, v) \<Longrightarrow>
   list_all (list_all (allocated h)) (stack (sm_Put sm k v) @ [base (sm_Put sm k v)])"
  by (cases "stack sm") (simp_all add: sm_Put_def)

lemma refs_allocated_New: "refs_allocated (New st)"
  by (simp add: refs_allocated_def New_def stackedmap_New_def)

lemma refs_allocated_repo_Put:
  assumes "refs_allocated s" and "allocated (heap s) (k, v)"
  shows "refs_allocated (repo_Put s k v)"
proof -
  have "list_all (list_all (allocated (heap s)))
          (stack (sm_Put (repo s) k v) @ [base (sm_Put (repo s) k v)])"
    using assms unfolding refs_allocated_def by (rule frames_allocated_Put)
  then show ?thesis by (simp add: refs_allocated_def repo_Put_def called_def)
qed

lemma refs_allocated_mutate:
  assumes "refs_allocated s" and "mutate m s = Inr s'"
  shows "refs_allocated s'"
proof (cases m)
  case (M_AddRefund g)
  obtain v h1 where get: "sm_Get (repo s) refundKey (heap s) = (v, h1)"
    by (cases "sm_Get (repo s) refundKey (heap s)")
  then have ext: "h1 = heap s \<or> h1 = heap s @ [0]"
    by (auto simp add: sm_Get_def getter_def alloc_def split: option.splits)
  from assms(2) M_AddRefund get obtain p where v: "v = VBigInt p"
    by (cases v) (simp_all add: AddRefund_def repo_Get_def)
  have "AddRefund s g =
          Inr (repo_Put (s\<lparr>calls := calls s @ [Call_Get refundKey], heap := h1 @ [h1 ! p + g]\<rparr>)
                 refundKey (VBigInt (length h1)))"
    by (simp add: AddRefund_def repo_Get_def get v alloc_def called_def)
  with assms(2) M_AddRefund have
    s': "s' = repo_Put (s\<lparr>calls := calls s @ [Call_Get refundKey], heap := h1 @ [h1 ! p + g]\<rparr>)
                   refundKey (VBigInt (length h1))"
    by simp
  have len: "length (heap s) \<le> length (h1 @ [h1 ! p + g])" using ext by auto
  have "list_all (list_all (allocated (h1 @ [h1 ! p + g]))) (stack (repo s) @ [base (repo s)])"
    using assms(1)[unfolded refs_allocated_def] len by (rule frames_allocated_grow)
  then have
    "refs_allocated (s\<lparr>calls := calls s @ [Call_Get refundKey], heap := h1 @ [h1 ! p + g]\<rparr>)"
    by (simp add: refs_allocated_def)
  then show ?thesis
    unfolding s' by (rule refs_allocated_repo_Put) (simp add: allocated_def)
next
  case (M_Suicide a)
  show ?thesis
  proof (cases "State_Exists (state s) a")
    case True
    then have "s' = repo_Put (state_Delete (called s (Call_Exists a)) a)
                      (suicideFlagKey a) (VBool True)"
      using assms(2) M_Suicide by (simp add: Suicide_def state_Exists_def)
    moreover have "refs_allocated (state_Delete (called s (Call_Exists a)) a)"
      using assms(1) by (simp add: refs_allocated_def state_Delete_def called_def)
    ultimately show ?thesis by (simp add: refs_allocated_repo_Put allocated_def)
  next
    case False
    then have "s' = called s (Call_Exists a)"
      using assms(2) M_Suicide by (simp add: Suicide_def state_Exists_def)
    then show ?thesis using assms(1) by (simp add: refs_allocated_def called_def)
  qed
next
  case (M_AddLog l)
  then show ?thesis using assms
    by (auto simp add: AddLog_def refs_allocated_repo_Put allocated_def)
next
  case (M_AddPreimage h b)
  then show ?thesis using assms
    by (auto simp add: AddPreimage_def refs_allocated_repo_Put allocated_def)
next
  case (M_AddBalance a v)
  then show ?thesis using assms
    by (auto simp add: refs_allocated_def AddBalance_def state_GetBalance_def
        state_SetBalance_def called_def split: if_splits)
next
  case (M_SubBalance a v)
  then show ?thesis using assms
    by (auto simp add: refs_allocated_def SubBalance_def state_GetBalance_def
        state_SetBalance_def called_def split: if_splits)
next
  case (M_SetCode a c)
  then show ?thesis using assms
    by (auto simp add: refs_allocated_def SetCode_def state_SetCode_def called_def)
next
  case (M_SetState a k v)
  then show ?thesis using assms
    by (auto simp add: refs_allocated_def SetState_def state_SetStorage_def called_def)
qed

lemma refs_allocated_Snapshot: "refs_allocated s \<Longrightarrow> refs_allocated (snd (Snapshot s))"
  by (simp add: refs_allocated_def Snapshot_def repo_Push_def sm_Push_def
      state_NewCheckpoint_def called_def)

lemma refs_allocated_RevertToSnapshot:
  assumes "refs_allocated s" and "RevertToSnapshot s r = Inr s'"
  shows "refs_allocated s'"
proof (cases "r < 0 \<or> r > sm_Depth (repo s)")
  case True
  from RevertToSnapshot_out_of_range[OF True] assms(2) show ?thesis by simp
next
  case False
  from RevertToSnapshot_in_range[OF False] assms(2)
  have "repo s' = (repo s)\<lparr>stack := drop (nat (sm_Depth (repo s) - r)) (stack (repo s))\<rparr>"
    and "heap s' = heap s"
    by auto
  then show ?thesis using assms(1) by (simp add: refs_allocated_def list_all_drop)
qed

subsection \<open>Snapshot and revert\<close>

lemma Snapshot_revision: "fst (Snapshot s) = sm_Depth (repo s)"
  by (simp add: Snapshot_def repo_Push_def sm_Push_def state_NewCheckpoint_def called_def
      split_beta)

lemma since_snapshot_Snapshot: "since_snapshot s (snd (Snapshot s))"
  by (simp add: since_snapshot_def Snapshot_def state_NewCheckpoint_def repo_Push_def
      sm_Push_def called_def State_NewCheckpoint_def)

lemma since_snapshot_repo_Put:
  "since_snapshot s t \<Longrightarrow> since_snapshot s (repo_Put t k v)"
  by (cases "stack (repo t)") (simp_all add: since_snapshot_def repo_Put_def called_def sm_Put_def)

lemma since_snapshot_AddRefund:
  assumes "since_snapshot s t" and "AddRefund t g = Inr t'"
  shows "since_snapshot s t'"
proof -
  obtain v h1 where get: "sm_Get (repo t) refundKey (heap t) = (v, h1)"
    by (cases "sm_Get (repo t) refundKey (heap t)")
  then have ext: "h1 = heap t \<or> h1 = heap t @ [0]"
    by (auto simp add: sm_Get_def getter_def alloc_def split: option.splits)
  from assms(2) get obtain p where v: "v = VBigInt p"
    by (cases v) (simp_all add: AddRefund_def repo_Get_def)
  have "AddRefund t g =
          Inr (repo_Put (t\<lparr>calls := calls t @ [Call_Get refundKey], heap := h1 @ [h1 ! p + g]\<rparr>)
                 refundKey (VBigInt (length h1)))"
    by (simp add: AddRefund_def repo_Get_def get v alloc_def called_def)
  with assms(2) have
    t': "t' = repo_Put (t\<lparr>calls := calls t @ [Call_Get refundKey], heap := h1 @ [h1 ! p + g]\<rparr>)
                   refundKey (VBigInt (length h1))"
    by simp
  have len: "length (heap s) \<le> length (heap t)"
    using assms(1) by (metis since_snapshot_def length_take min.cobounded1)
  have "since_snapshot s
          (t\<lparr>calls := calls t @ [Call_Get refundKey], heap := h1 @ [h1 ! p + g]\<rparr>)"
    using assms(1) ext len by (auto simp add: since_snapshot_def)
  then show ?thesis unfolding t' by (rule since_snapshot_repo_Put)
qed

lemma since_snapshot_mutate:
  "since_snapshot s t \<Longrightarrow> mutate m t = Inr t' \<Longrightarrow> since_snapshot s t'"
proof (cases m)
  case (M_AddRefund g)
  assume "since_snapshot s t" "mutate m t = Inr t'"
  then show ?thesis using M_AddRefund by (simp add: since_snapshot_AddRefund)
next
  case (M_Suicide a)
  assume a: "since_snapshot s t" "mutate m t = Inr t'"
  show ?thesis
  proof (cases "State_Exists (state t) a")
    case True
    then have "t' = repo_Put (state_Delete (called t (Call_Exists a)) a)
                      (suicideFlagKey a) (VBool True)"
      using a(2) M_Suicide by (simp add: Suicide_def state_Exists_def)
    moreover have "since_snapshot s (state_Delete (called t (Call_Exists a)) a)"
      using a(1) by (simp add: since_snapshot_def state_Delete_def called_def State_Delete_def)
    ultimately show ?thesis by (simp add: since_snapshot_repo_Put)
  next
    case False
    then have "t' = called t (Call_Exists a)"
      using a(2) M_Suicide by (simp add: Suicide_def state_Exists_def)
    then show ?thesis using a(1) by (simp add: since_snapshot_def called_def)
  qed
next
  case (M_AddLog l)
  assume "since_snapshot s t" "mutate m t = Inr t'"
  then show ?thesis using M_AddLog by (auto simp add: AddLog_def since_snapshot_repo_Put)
next
  case (M_AddPreimage h b)
  assume "since_snapshot s t" "mutate m t = Inr t'"
  then show ?thesis using M_AddPreimage
    by (auto simp add: AddPreimage_def since_snapshot_repo_Put)
next
  case (M_AddBalance a v)
  assume "since_snapshot s t" "mutate m t = Inr t'"
  then show ?thesis using M_AddBalance
    by (auto simp add: since_snapshot_def AddBalance_def state_GetBalance_def
        state_SetBalance_def called_def State_SetBalance_def split: if_splits)
next
  case (M_SubBalance a v)
  assume "since_snapshot s t" "mutate m t = Inr t'"
  then show ?thesis using M_SubBalance
    by (auto simp add: since_snapshot_def SubBalance_def state_GetBalance_def
        state_SetBalance_def called_def State_SetBalance_def split: if_splits)
next
  case (M_SetCode a c)
  assume "since_snapshot s t" "mutate m t = Inr t'"
  then show ?thesis using M_SetCode
    by (auto simp add: since_snapshot_def SetCode_def state_SetCode_def called_def
        State_SetCode_def)
next
  case (M_SetState a k v)
  assume "since_snapshot s t" "mutate m t = Inr t'"
  then show ?thesis using M_SetState
    by (auto simp add: since_snapshot_def SetState_def state_SetStorage_def called_def
        State_SetStorage_def)
qed

lemma since_snapshot_mutate_all:
  "since_snapshot s t \<Longrightarrow> mutate_all ms t = Inr t' \<Longrightarrow> since_snapshot s t'"
proof (induction ms arbitrary: t)
  case Nil
  then show ?case by simp
next
  case (Cons m ms)
  from Cons.prems(2) obtain t1 where 1: "mutate m t = Inr t1" and 2: "mutate_all ms t1 = Inr t'"
    by (cases "mutate m t") simp_all
  from since_snapshot_mutate[OF Cons.prems(1) 1] 2 show ?case by (rule Cons.IH)
qed

text \<open>
  Reverting to the depth the journal had before the snapshot undoes the checkpoint
  and the frame of the snapshot.
\<close>

lemma revert_to_depth_before_snapshot:
  assumes "since_snapshot s t"
  shows "\<exists>t'. RevertToSnapshot t (sm_Depth (repo s)) = Inr t' \<and>
              state t' = state s \<and> repo t' = repo s \<and>
              take (length (heap s)) (heap t') = heap s"
proof -
  from assms have
    cp: "checkpoints (state t) = accounts (state s) # checkpoints (state s)" and
    ne: "stack (repo t) \<noteq> []" and tl: "tl (stack (repo t)) = stack (repo s)" and
    base: "base (repo t) = base (repo s)" and
    heap: "take (length (heap s)) (heap t) = heap s"
    by (simp_all add: since_snapshot_def)
  from ne tl have depth: "sm_Depth (repo t) = sm_Depth (repo s) + 1"
    by (cases "stack (repo t)") (simp_all add: sm_Depth_def)
  have "0 \<le> sm_Depth (repo s)"
    by (simp add: sm_Depth_def)
  with depth have range: "\<not> (sm_Depth (repo s) < 0 \<or> sm_Depth (repo s) > sm_Depth (repo t))"
    by simp
  have count: "nat (sm_Depth (repo t) - sm_Depth (repo s)) = 1"
    by (simp add: depth)
  have st: "State_Revert (state t) = state s"
    by (simp add: State_Revert_restores[OF cp])
  have rp: "(repo t)\<lparr>stack := drop 1 (stack (repo t))\<rparr> = repo s"
    using tl base by (simp add: drop_Suc)
  from RevertToSnapshot_in_range[OF range]
  have "RevertToSnapshot t (sm_Depth (repo s)) =
        Inr (t\<lparr>state := (State_Revert ^^ 1) (state t),
               repo := (repo t)\<lparr>stack := drop 1 (stack (repo t))\<rparr>,
               calls := calls t @ [Call_Depth, Call_Depth] @ replicate 1 Call_Revert
                          @ [Call_PopTo (sm_Depth (repo s))]\<rparr>)"
    unfolding count .
  then show ?thesis using st rp heap by simp
qed

subsection \<open>The observables depend on state, journal and the allocated cells only\<close>

lemma refund_total_same:
  assumes "repo t = repo s" and "take (length (heap s)) (heap t) = heap s"
    and "refs_allocated s"
  shows "refund_total t = refund_total s"
proof (cases "find_binding (stack (repo s) @ [base (repo s)]) refundKey")
  case None
  then show ?thesis
    by (simp add: refund_total_def GetRefund_def repo_Get_def sm_Get_def getter_def alloc_def
        called_def assms(1))
next
  case (Some v)
  show ?thesis
  proof (cases v)
    case (VBigInt p)
    have "allocated (heap s) (refundKey, v)"
      using assms(3) Some unfolding refs_allocated_def by (rule find_binding_list_all)
    then have p: "p < length (heap s)" by (simp add: allocated_def VBigInt)
    have "heap t ! p = take (length (heap s)) (heap t) ! p" using p by simp
    then have "heap t ! p = heap s ! p" by (simp add: assms(2))
    then show ?thesis
      by (simp add: refund_total_def GetRefund_def repo_Get_def sm_Get_def called_def
          assms(1) Some VBigInt)
  qed (simp_all add: refund_total_def GetRefund_def repo_Get_def sm_Get_def called_def
        assms(1) Some)
qed

lemma observables_same:
  assumes "state t = state s" and "repo t = repo s"
    and "take (length (heap s)) (heap t) = heap s" and "refs_allocated s"
  shows "fst (GetBalance t a) = fst (GetBalance s a) \<and>
         fst (GetCode t a) = fst (GetCode s a) \<and>
         fst (GetState t a k) = fst (GetState s a k) \<and>
         refund_total t = refund_total s \<and>
         suicided t a = suicided s a \<and>
         logs_seen t = logs_seen s \<and>
         preimages_seen t = preimages_seen s"
proof (intro conjI)
  show "refund_total t = refund_total s"
    using assms(2,3,4) by (rule refund_total_same)
  show "suicided t a = suicided s a"
    by (simp add: suicided_def HasSuicided_def repo_Get_def sm_Get_def getter_def assms(2)
        split: option.splits Value.splits)
qed (simp_all add: GetBalance_def GetCode_def GetState_def state_GetBalance_def
      state_GetCode_def state_GetStorage_def logs_seen_def preimages_seen_def GetLogs_def
      GetPreimages_def repo_Journal_def assms(1,2) split: sum.splits)

text \<open>
  C2.  Let \<open>r\<close> be the revision that \<^verbatim>\<open>Snapshot()\<close> returns on a facade \<open>s\<close> (whose
  journal is well typed and points into the heap, as in every state the facade reaches
  from \<^verbatim>\<open>New\<close>).  Every sequence \<open>ms\<close> of mutations (balance, code, storage, refund,
  suicide, log, preimage) run after the snapshot returns, and \<^verbatim>\<open>RevertToSnapshot(r)\<close>
  called after it returns too and leaves the underlying state and the journal exactly
  as they were before the snapshot, so that \<^verbatim>\<open>GetBalance\<close>, \<^verbatim>\<open>GetCode\<close>, \<^verbatim>\<open>GetState\<close>, the
  refund total, \<^verbatim>\<open>HasSuicided\<close>, the logs and the preimages read as before it.  The
  underlying state is the checkpoint contract of the section on \<open>State\<close>.
\<close>

theorem RevertToSnapshot_restores_every_observable:
  assumes "wt_repo (repo s)" and "refs_allocated s"
  shows "\<exists>t t'. mutate_all ms (snd (Snapshot s)) = Inr t \<and>
              RevertToSnapshot t (fst (Snapshot s)) = Inr t' \<and>
              state t' = state s \<and> repo t' = repo s \<and>
              (\<forall>a k. fst (GetBalance t' a) = fst (GetBalance s a) \<and>
                     fst (GetCode t' a) = fst (GetCode s a) \<and>
                     fst (GetState t' a k) = fst (GetState s a k) \<and>
                     refund_total t' = refund_total s \<and>
                     suicided t' a = suicided s a \<and>
                     logs_seen t' = logs_seen s \<and>
                     preimages_seen t' = preimages_seen s)"
proof -
  from mutate_all_returns[OF wt_repo_Snapshot[OF assms(1)], of ms] obtain t where
    t: "mutate_all ms (snd (Snapshot s)) = Inr t" by blast
  have "since_snapshot s t"
    using since_snapshot_Snapshot t by (rule since_snapshot_mutate_all)
  from revert_to_depth_before_snapshot[OF this] obtain t' where
    t': "RevertToSnapshot t (sm_Depth (repo s)) = Inr t'" "state t' = state s"
        "repo t' = repo s" "take (length (heap s)) (heap t') = heap s"
    by blast
  from observables_same[OF t'(2,3,4) assms(2)] t t'(1,2,3) show ?thesis
    by (auto simp add: Snapshot_revision)
qed

text \<open>
  Scenario S2 of the spec, \<^verbatim>\<open>AddBalance(A, 100); r = Snapshot(); SubBalance(A, 40);
  RevertToSnapshot(r); GetBalance(A)\<close>, with address 1 for \<open>A\<close>: the balance is 60 before
  the revert and 100 after it.  And a longer sequence after the same snapshot, with a
  refund, two logs, a preimage, code, storage and a suicide: before the revert the
  refund total is 5, both logs and the preimage are enumerated and the flag is set;
  after it everything reads as before the snapshot.
\<close>

theorem RevertToSnapshot_restores_witness:
  "fst (Snapshot snapshot_example) = 0 \<and>
   (case mutate_all [M_SubBalance 1 40] (snd (Snapshot snapshot_example)) of
      Inl e \<Rightarrow> False
    | Inr t \<Rightarrow>
        fst (GetBalance t 1) = 60 \<and>
        (case RevertToSnapshot t (fst (Snapshot snapshot_example)) of
           Inl e \<Rightarrow> False
         | Inr t' \<Rightarrow> fst (GetBalance t' 1) = 100)) \<and>
   (case mutate_all example_mutations (snd (Snapshot snapshot_example)) of
      Inl e \<Rightarrow> False
    | Inr t \<Rightarrow>
        fst (GetBalance t 1) = 0 \<and> refund_total t = Inr 5 \<and> suicided t 1 = Inr True \<and>
        logs_seen t = Inr [vmlogToLog example_Log, vmlogToLog (example_Log\<lparr>vm_Data := [4]\<rparr>)] \<and>
        preimages_seen t = Inr [(5, [1, 2])] \<and>
        (case RevertToSnapshot t (fst (Snapshot snapshot_example)) of
           Inl e \<Rightarrow> False
         | Inr t' \<Rightarrow>
             fst (GetBalance t' 1) = 100 \<and> fst (GetCode t' 1) = [] \<and>
             fst (GetState t' 1 2) = 0 \<and> refund_total t' = Inr 0 \<and>
             suicided t' 1 = Inr False \<and> logs_seen t' = Inr [] \<and>
             preimages_seen t' = Inr []))"
proof -
  have wt: "wt_repo (repo snapshot_example)"
    by (simp add: snapshot_example_def wt_repo_def empty_State_def method_defs site_defs
        sm_defs sgn_if)
  have ra: "refs_allocated snapshot_example"
    by (simp add: snapshot_example_def refs_allocated_def empty_State_def method_defs
        site_defs sm_defs sgn_if)
  have evaluated: ?thesis
    by (simp add: snapshot_example_def example_mutations_def example_Log_def empty_State_def
        refund_total_def suicided_def logs_seen_def preimages_seen_def
        RevertToSnapshot_in_range method_defs site_defs sm_defs State_defs sgn_if)
  from RevertToSnapshot_restores_every_observable[OF wt ra, of "[M_SubBalance 1 40]"]
       RevertToSnapshot_restores_every_observable[OF wt ra, of example_mutations]
       evaluated
  show ?thesis by blast
qed

section \<open>The event loops: properties\<close>

lemmas client_defs =
  split_beta Let_def consent_def emit_def ch_GetBlockHeader_def ch_AddBlock_def
  cs_Consent_def cs_IsTrunk_def

lemma IsNotFound_iff_absent:
  "chain_IsNotFound (snd (chain_GetBlockHeader ch i)) \<longleftrightarrow> i \<notin> chain_ids ch"
proof -
  have "chain_IsNotFound (snd (chain_GetBlockHeader ch i)) \<longleftrightarrow>
        find (\<lambda>(b, t). ID (Header b) = i) (blocks ch) = None"
    by (simp add: chain_IsNotFound_def chain_GetBlockHeader_def split: option.splits prod.splits)
  also have "\<dots> \<longleftrightarrow> i \<notin> chain_ids ch"
    by (force simp add: find_None_iff chain_ids_def)
  finally show ?thesis .
qed

lemma chain_ids_AddBlock:
  "chain_ids (chain_AddBlock ch blk t) = insert (ID (Header blk)) (chain_ids ch)"
  by (force simp add: chain_AddBlock_def chain_ids_def find_None_iff)

lemma AddBlock_ids_append: "AddBlock_ids (xs @ ys) = AddBlock_ids xs @ AddBlock_ids ys"
  by (induction xs rule: AddBlock_ids.induct) simp_all

text \<open>
  One network delivery either makes no \<^verbatim>\<open>AddBlock\<close> call and leaves the chain as it
  was, or makes one, for a block whose id was absent and is present afterwards.
\<close>

lemma consent_network_step:
  "(AddBlock_ids (trace (consent cs now (Recv_blockCh blk) w)) = AddBlock_ids (trace w) \<and>
    chain (consent cs now (Recv_blockCh blk) w) = chain w) \<or>
   (AddBlock_ids (trace (consent cs now (Recv_blockCh blk) w)) =
      AddBlock_ids (trace w) @ [ID (Header blk)] \<and>
    ID (Header blk) \<notin> chain_ids (chain w) \<and>
    chain_ids (chain (consent cs now (Recv_blockCh blk) w)) =
      insert (ID (Header blk)) (chain_ids (chain w)))"
proof (cases "chain_IsNotFound (snd (chain_GetBlockHeader (chain w) (ID (Header blk))))")
  case False
  then show ?thesis by (simp add: client_defs AddBlock_ids_append)
next
  case True
  then have absent: "ID (Header blk) \<notin> chain_ids (chain w)"
    by (simp add: IsNotFound_iff_absent)
  show ?thesis
  proof (cases "Consent cs (chain w) blk now")
    case (Inl e)
    then show ?thesis using True by (simp add: client_defs AddBlock_ids_append)
  next
    case (Inr trunk)
    then show ?thesis using True absent
      by (simp add: client_defs AddBlock_ids_append chain_ids_AddBlock)
  qed
qed

lemma consent_run_network_adds_once:
  "\<exists>new. AddBlock_ids (trace (consent_run cs (deliveries ds) w)) = AddBlock_ids (trace w) @ new \<and>
         distinct new \<and> set new \<inter> chain_ids (chain w) = {} \<and>
         chain_ids (chain w) \<union> set new \<subseteq> chain_ids (chain (consent_run cs (deliveries ds) w))"
proof (induction ds arbitrary: w)
  case Nil
  then show ?case by (simp add: deliveries_def)
next
  case (Cons d ds)
  obtain now blk where d: "d = (now, blk)" by (cases d)
  let ?w1 = "consent cs now (Recv_blockCh blk) w"
  from Cons.IH[of ?w1] obtain new where
    new: "AddBlock_ids (trace (consent_run cs (deliveries ds) ?w1)) =
            AddBlock_ids (trace ?w1) @ new"
      "distinct new" "set new \<inter> chain_ids (chain ?w1) = {}"
      "chain_ids (chain ?w1) \<union> set new \<subseteq> chain_ids (chain (consent_run cs (deliveries ds) ?w1))"
    by blast
  have run: "consent_run cs (deliveries (d # ds)) w = consent_run cs (deliveries ds) ?w1"
    by (simp add: deliveries_def d)
  from consent_network_step[of cs now blk w] show ?case
  proof
    assume "AddBlock_ids (trace ?w1) = AddBlock_ids (trace w) \<and> chain ?w1 = chain w"
    with new run show ?thesis by auto
  next
    assume a: "AddBlock_ids (trace ?w1) = AddBlock_ids (trace w) @ [ID (Header blk)] \<and>
      ID (Header blk) \<notin> chain_ids (chain w) \<and>
      chain_ids (chain ?w1) = insert (ID (Header blk)) (chain_ids (chain w))"
    show ?thesis
    proof (intro exI[of _ "ID (Header blk) # new"] conjI)
      show "AddBlock_ids (trace (consent_run cs (deliveries (d # ds)) w)) =
            AddBlock_ids (trace w) @ ID (Header blk) # new"
        using a new(1) run by simp
      show "distinct (ID (Header blk) # new)" using a new(2,3) by auto
      show "set (ID (Header blk) # new) \<inter> chain_ids (chain w) = {}" using a new(3) by auto
      show "chain_ids (chain w) \<union> set (ID (Header blk) # new)
            \<subseteq> chain_ids (chain (consent_run cs (deliveries (d # ds)) w))"
        using a new(4) run by auto
    qed
  qed
qed

text \<open>
  C5.  For a block received from the network: when the lookup of its id does not
  report NotFound, the iteration consists of the lookup alone (no call of the
  consenter, no log line, nothing else); when it reports NotFound, the lookup is
  followed by the call \<^verbatim>\<open>Consent(blk, now)\<close>.  The lookup reports NotFound exactly when
  no block of the chain has the id.  In a run of network deliveries, whatever the
  blocks and the consenter, the ids handed to \<^verbatim>\<open>AddBlock\<close> during the run are pairwise
  distinct and none was in the chain before: a block delivered twice, or more often, is
  added at most once.
\<close>

theorem consent_deduplicates_network_blocks:
  "(\<not> chain_IsNotFound (snd (chain_GetBlockHeader (chain w) (ID (Header blk)))) \<longrightarrow>
      consent cs now (Recv_blockCh blk) w =
        w\<lparr>trace := trace w @ [Ev_GetBlockHeader (ID (Header blk))]\<rparr>) \<and>
   (chain_IsNotFound (snd (chain_GetBlockHeader (chain w) (ID (Header blk)))) \<longrightarrow>
      (\<exists>rest. trace (consent cs now (Recv_blockCh blk) w) =
         trace w @ [Ev_GetBlockHeader (ID (Header blk)), Ev_Consent blk now] @ rest)) \<and>
   (chain_IsNotFound (snd (chain_GetBlockHeader (chain w) (ID (Header blk)))) \<longleftrightarrow>
      ID (Header blk) \<notin> chain_ids (chain w)) \<and>
   (\<exists>new. AddBlock_ids (trace (consent_run cs (deliveries ds) w)) =
            AddBlock_ids (trace w) @ new \<and>
          distinct new \<and> set new \<inter> chain_ids (chain w) = {})"
proof (intro conjI impI)
  assume "\<not> chain_IsNotFound (snd (chain_GetBlockHeader (chain w) (ID (Header blk))))"
  then show "consent cs now (Recv_blockCh blk) w =
      w\<lparr>trace := trace w @ [Ev_GetBlockHeader (ID (Header blk))]\<rparr>"
    by (simp add: client_defs)
next
  assume "chain_IsNotFound (snd (chain_GetBlockHeader (chain w) (ID (Header blk))))"
  then show "\<exists>rest. trace (consent cs now (Recv_blockCh blk) w) =
         trace w @ [Ev_GetBlockHeader (ID (Header blk)), Ev_Consent blk now] @ rest"
    by (cases "Consent cs (chain w) blk now") (simp_all add: client_defs)
next
  show "chain_IsNotFound (snd (chain_GetBlockHeader (chain w) (ID (Header blk)))) \<longleftrightarrow>
      ID (Header blk) \<notin> chain_ids (chain w)"
    by (rule IsNotFound_iff_absent)
next
  show "\<exists>new. AddBlock_ids (trace (consent_run cs (deliveries ds) w)) =
            AddBlock_ids (trace w) @ new \<and>
          distinct new \<and> set new \<inter> chain_ids (chain w) = {}"
    using consent_run_network_adds_once[of cs ds w] by blast
qed

text \<open>
  The example block delivered twice to an accepting consenter, on an empty chain: the
  first delivery is looked up, consented, added, logged, broadcast and signalled; the
  second is looked up and dropped.
\<close>

theorem consent_deduplicates_witness:
  "trace (consent_run accepting_Consensus (deliveries [(50, example_Block), (51, example_Block)])
            empty_World) =
     [Ev_GetBlockHeader 7, Ev_Consent example_Block 50, Ev_AddBlock example_Block True,
      Ev_LogInfo (received_trunk example_Block 1), Ev_BroadcastBlock example_Block,
      Ev_TrySend_bestBlockUpdate, Ev_GetBlockHeader 7] \<and>
   blocks (chain (consent_run accepting_Consensus
                    (deliveries [(50, example_Block), (51, example_Block)]) empty_World)) =
     [(example_Block, True)] \<and>
   consent accepting_Consensus 51 (Recv_blockCh example_Block)
       \<lparr> chain = \<lparr> blocks = [(example_Block, True)] \<rparr>, trace = [] \<rparr> =
     \<lparr> chain = \<lparr> blocks = [(example_Block, True)] \<rparr>, trace = [Ev_GetBlockHeader 7] \<rparr>"
  using consent_deduplicates_network_blocks
          [of "\<lparr> chain = \<lparr> blocks = [(example_Block, True)] \<rparr>, trace = [] \<rparr>" example_Block
              accepting_Consensus 51 "[(50, example_Block), (51, example_Block)]"]
        consent_deduplicates_network_blocks
          [of empty_World example_Block accepting_Consensus 50
              "[(50, example_Block), (51, example_Block)]"]
  by (simp add: client_defs deliveries_def empty_World_def accepting_Consensus_def
      example_Block_def chain_GetBlockHeader_def chain_IsNotFound_def chain_AddBlock_def)

text \<open>
  C8.  When the id of a network block is not in the chain and \<^verbatim>\<open>Consent(blk, now)\<close>
  returns an error, the iteration consists of the lookup, the call of the consenter and
  one log line at warn carrying the error: no \<^verbatim>\<open>AddBlock\<close>, no broadcast, no send on
  \<^verbatim>\<open>bestBlockUpdate\<close>, and the chain store is as it was.
\<close>

theorem consent_error_only_warns:
  "chain_IsNotFound (snd (chain_GetBlockHeader (chain w) (ID (Header blk)))) \<Longrightarrow>
   Consent cs (chain w) blk now = Inl e \<Longrightarrow>
   consent cs now (Recv_blockCh blk) w =
     w\<lparr>trace := trace w @ [Ev_GetBlockHeader (ID (Header blk)), Ev_Consent blk now,
                            Ev_LogWarn (received_bad blk (Signer (Header blk)) e)]\<rparr> \<and>
   chain (consent cs now (Recv_blockCh blk) w) = chain w"
  by (simp add: client_defs)

theorem consent_error_witness:
  "consent rejecting_Consensus 50 (Recv_blockCh example_Block) empty_World =
     \<lparr> chain = \<lparr> blocks = [] \<rparr>,
       trace = [Ev_GetBlockHeader 7, Ev_Consent example_Block 50,
                Ev_LogWarn (received_bad example_Block 1 (errOther 3))] \<rparr>"
proof -
  have 1: "chain_IsNotFound
             (snd (chain_GetBlockHeader (chain empty_World) (ID (Header example_Block))))"
    by (simp add: chain_IsNotFound_def chain_GetBlockHeader_def empty_World_def)
  have 2: "Consent rejecting_Consensus (chain empty_World) example_Block 50 = Inl (errOther 3)"
    by (simp add: rejecting_Consensus_def)
  from consent_error_only_warns[OF 1 2] show ?thesis
    by (simp add: empty_World_def example_Block_def)
qed

text \<open>The source's loop computes what the specification's wording describes.\<close>

lemma adopt_loop_refines:
  "adopt_loop adoptf txs p tr =
     (drop (length (adopt_calls_spec adoptf txs p)) txs,
      foldl (\<lambda>q tx. snd (adoptf q tx)) p (take (length (adopt_calls_spec adoptf txs p)) txs),
      tr @ adopt_events (adopt_calls_spec adoptf txs p))"
proof (induction txs arbitrary: p tr)
  case Nil
  then show ?case
    by (simp add: adopt_calls_spec_def through_first_GasLimitReached_def adopt_events_def)
next
  case (Cons tx txs)
  obtain err p' where f: "adoptf p tx = (err, p')" by (cases "adoptf p tx")
  show ?case
  proof (cases "packer_IsGasLimitReached err")
    case True
    then show ?thesis using f
      by (simp add: adopt_calls_spec_def through_first_GasLimitReached_def adopt_events_def)
  next
    case False
    have spec: "adopt_calls_spec adoptf (tx # txs) p = (tx, err) # adopt_calls_spec adoptf txs p'"
      using f False by (simp add: adopt_calls_spec_def through_first_GasLimitReached_def)
    have "adopt_loop adoptf (tx # txs) p tr = adopt_loop adoptf txs p' (tr @ [Ev_adopt tx err])"
      using f False by simp
    then show ?thesis
      unfolding spec Cons.IH by (simp add: f adopt_events_def)
  qed
qed

text \<open>
  C7.  The adoption loop calls \<^verbatim>\<open>adopt\<close> on the transactions of the iterator in the
  iterator's order, each once, up to and including the first call whose error is
  GasLimitReached, or on all of them when no call returns it; a call returning another
  error, or none, is followed by the call on the next transaction.  The iterator is
  left holding the transactions not drawn.  In \<^verbatim>\<open>pack\<close>, once the timer has fired, these
  calls stand between the creation of the timer and the call of \<^verbatim>\<open>commit\<close>.
\<close>

theorem pack_adopts_in_order_until_GasLimitReached:
  "adopt_loop adoptf txs p tr =
     (drop (length (adopt_calls_spec adoptf txs p)) txs,
      foldl (\<lambda>q tx. snd (adoptf q tx)) p (take (length (adopt_calls_spec adoptf txs p)) txs),
      tr @ adopt_events (adopt_calls_spec adoptf txs p)) \<and>
   (Prepare pk (Header bestBlock) now = Inr (ts, p0) \<longrightarrow>
      fst (pack pk (Inr bestBlock) now Timer_fired privateKey txs) =
        drop (length (adopt_calls_spec (adopt pk) txs p0)) txs \<and>
      (\<exists>tail. snd (pack pk (Inr bestBlock) now Timer_fired privateKey txs) =
          [Ev_Prepare (Header bestBlock) now,
           Ev_LogInfo (waiting_to_propose (Number (Header bestBlock) + 1) (ts - now)),
           Ev_NewTimer (ts - now)]
          @ adopt_events (adopt_calls_spec (adopt pk) txs p0)
          @ Ev_commit privateKey # tail))"
proof (intro conjI impI)
  show "adopt_loop adoptf txs p tr =
     (drop (length (adopt_calls_spec adoptf txs p)) txs,
      foldl (\<lambda>q tx. snd (adoptf q tx)) p (take (length (adopt_calls_spec adoptf txs p)) txs),
      tr @ adopt_events (adopt_calls_spec adoptf txs p))"
    by (rule adopt_loop_refines)
next
  assume prep: "Prepare pk (Header bestBlock) now = Inr (ts, p0)"
  show "fst (pack pk (Inr bestBlock) now Timer_fired privateKey txs) =
        drop (length (adopt_calls_spec (adopt pk) txs p0)) txs"
    by (simp add: pack_def prep adopt_loop_refines Let_def split: sum.splits)
  show "\<exists>tail. snd (pack pk (Inr bestBlock) now Timer_fired privateKey txs) =
          [Ev_Prepare (Header bestBlock) now,
           Ev_LogInfo (waiting_to_propose (Number (Header bestBlock) + 1) (ts - now)),
           Ev_NewTimer (ts - now)]
          @ adopt_events (adopt_calls_spec (adopt pk) txs p0)
          @ Ev_commit privateKey # tail"
    by (simp add: pack_def prep adopt_loop_refines Let_def split: sum.splits)
qed

text \<open>
  The example packer on the transactions 5, 2, 4, 3, 6: 5 is adopted, 2 is refused for
  another reason and skipped, 4 is adopted, 3 reaches the gas limit and ends the
  adoption, 6 stays in the iterator.
\<close>

theorem pack_adopts_witness:
  "pack example_Packer (Inr example_Block) 50 Timer_fired 9 [5, 2, 4, 3, 6] =
     ([6],
      [Ev_Prepare (Header example_Block) 50, Ev_LogInfo (waiting_to_propose 2 3),
       Ev_NewTimer 3,
       Ev_adopt 5 None, Ev_adopt 2 (Some (errOther 0)), Ev_adopt 4 None,
       Ev_adopt 3 (Some errGasLimitReached),
       Ev_commit 9, Ev_LogInfo (proposed example_Block),
       Ev_Send_newBlockPacked example_Block, Ev_Recv_newBlockAck]) \<and>
   adopt_calls_spec example_adopt [5, 2, 4, 3, 6] 0 =
     [(5, None), (2, Some (errOther 0)), (4, None), (3, Some errGasLimitReached)]"
  using pack_adopts_in_order_until_GasLimitReached
          [of example_adopt "[5, 2, 4, 3, 6]" 0 "[]" example_Packer example_Block 50 53 0 9]
  by (simp add: pack_def example_Packer_def example_adopt_def example_Block_def
      packer_IsGasLimitReached_def adopt_calls_spec_def through_first_GasLimitReached_def)

text \<open>The two outcomes of the packed-block branch, for any consenter, block and world.\<close>

lemma consent_packed_IsTrunk_ok:
  "IsTrunk cs (chain w) (Header blk) = Inr trunk \<Longrightarrow>
   consent cs now (Recv_newBlockPacked blk) w =
     w\<lparr>chain := chain_AddBlock (chain w) blk trunk,
       trace := trace w @ [Ev_IsTrunk (Header blk), Ev_AddBlock blk trunk]
                 @ (if trunk then [Ev_BroadcastBlock blk] else [])
                 @ [Ev_Send_newBlockAck]\<rparr>"
  by (simp add: client_defs)

lemma consent_packed_IsTrunk_error:
  "IsTrunk cs (chain w) (Header blk) = Inl e \<Longrightarrow>
   consent cs now (Recv_newBlockPacked blk) w = w\<lparr>trace := trace w @ [Ev_IsTrunk (Header blk)]\<rparr>"
  by (simp add: client_defs)

text \<open>
  C1.  The pack loop hands the example block over and then waits for the
  acknowledgement: its last two events are the send on \<^verbatim>\<open>newBlockPacked\<close> and the receive
  on \<^verbatim>\<open>newBlockAck\<close>.  The consent loop, receiving that block with a consenter whose
  \<^verbatim>\<open>IsTrunk\<close> returns an error, calls \<^verbatim>\<open>IsTrunk\<close> and returns: the block is dropped and the
  number of sends on \<^verbatim>\<open>newBlockAck\<close> is zero, not one.  With a consenter whose \<^verbatim>\<open>IsTrunk\<close>
  succeeds the branch sends exactly one.
\<close>

theorem consent_packed_IsTrunk_error_sends_no_ack:
  "snd (pack example_Packer (Inr example_Block) 50 Timer_fired 9 []) =
     [Ev_Prepare (Header example_Block) 50, Ev_LogInfo (waiting_to_propose 2 3),
      Ev_NewTimer 3, Ev_commit 9, Ev_LogInfo (proposed example_Block),
      Ev_Send_newBlockPacked example_Block, Ev_Recv_newBlockAck] \<and>
   consent rejecting_Consensus 53 (Recv_newBlockPacked example_Block) empty_World =
     \<lparr> chain = \<lparr> blocks = [] \<rparr>, trace = [Ev_IsTrunk (Header example_Block)] \<rparr> \<and>
   count_list
     (trace (consent rejecting_Consensus 53 (Recv_newBlockPacked example_Block) empty_World))
     Ev_Send_newBlockAck = 0 \<and>
   count_list
     (trace (consent accepting_Consensus 53 (Recv_newBlockPacked example_Block) empty_World))
     Ev_Send_newBlockAck = 1"
  by (simp add: pack_def example_Packer_def example_Block_def client_defs
      rejecting_Consensus_def accepting_Consensus_def empty_World_def chain_AddBlock_def)

end
